theory Spec2Isabelle
  imports Main "HOL-Library.Multiset" "HOL-Library.Char_ord" "HOL-Library.List_Lexorder"
begin

section \<open>Values of the host language\<close>

text \<open>
  The combinators of \<^verbatim>\<open>src/lib/iterable.ts\<close> are generic in the element type, which
  is erased at run time: an element is any value of the host language. \<open>Undefined\<close> is the
  host's absence-of-value marker, the value the scalar queries return when there is nothing
  to return. \<open>Number\<close> carries a finite number, as an integer (the host orders fractions
  and the infinities along with the integers, and they are left out); \<open>NaN\<close> is the
  number that is not one, unordered against every value; \<open>Seq\<close> is an iterable object (an
  array or a sequence wrapper) with the elements one traversal produces; \<open>Other\<close> is any
  other object, function or symbol, named by a tag.
\<close>

datatype val =
    Undefined
  | Null
  | Boolean bool
  | Number int
  | NaN
  | BigInt int
  | String string
  | Seq "val list"
  | Other nat

text \<open>The one error the combinators raise: the host's \<^verbatim>\<open>TypeError\<close>, with its message.\<close>

datatype error = TypeError string

text \<open>\<^verbatim>\<open>toArray = [...iter]\<close>: a finite traversal is the list of the elements it produces.\<close>

definition toArray :: "val list \<Rightarrow> val list" where
  "toArray iter = iter"

text \<open>
  The host's relational operator \<^verbatim>\<open>a < b\<close> on primitive operands. Two strings compare
  by code units, lexicographically. Otherwise both operands are converted to numbers
  (\<^verbatim>\<open>null\<close> is 0, \<^verbatim>\<open>false\<close> is 0, \<^verbatim>\<open>true\<close> is 1, numbers and big integers are their
  value) and compared; \<^verbatim>\<open>undefined\<close> converts to NaN, and NaN, converted or given,
  makes every comparison false. A string against a non-string (the host parses the string) and objects (the host
  calls the object's own conversion) are not modelled and give \<open>False\<close> here; the default
  comparator of \<^verbatim>\<open>sorted\<close> and the width computation of \<^verbatim>\<open>transpose\<close> never compare
  such operands.
\<close>

fun to_num :: "val \<Rightarrow> int option" where
  "to_num Null = Some 0"
| "to_num (Boolean b) = Some (if b then 1 else 0)"
| "to_num (Number n) = Some n"
| "to_num (BigInt n) = Some n"
| "to_num _ = None"

fun js_lt :: "val \<Rightarrow> val \<Rightarrow> bool" where
  "js_lt (String a) (String b) = (a < b)"
| "js_lt a b = (case (to_num a, to_num b) of (Some x, Some y) \<Rightarrow> x < y | _ \<Rightarrow> False)"

definition js_gt :: "val \<Rightarrow> val \<Rightarrow> bool" where
  "js_gt a b = js_lt b a"

section \<open>Aggregation and positional access\<close>

text \<open>
  \<^verbatim>\<open>count(iter, fn?)\<close>: the loop
  \<^verbatim>\<open>for (const value of iter) if (!fn || fn(value, i++, iter)) c++\<close>
  with its two counters; the index advances only when the predicate is called.
\<close>

fun count_loop :: "(val \<Rightarrow> int \<Rightarrow> val list \<Rightarrow> bool) option \<Rightarrow> val list \<Rightarrow> int \<Rightarrow> int \<Rightarrow> val list \<Rightarrow> int" where
  "count_loop fn iter c i [] = c"
| "count_loop fn iter c i (v # rest) =
     (case fn of
        None \<Rightarrow> count_loop fn iter (c + 1) i rest
      | Some f \<Rightarrow> if f v i iter then count_loop fn iter (c + 1) (i + 1) rest
                  else count_loop fn iter c (i + 1) rest)"

definition count_it :: "val list \<Rightarrow> (val \<Rightarrow> int \<Rightarrow> val list \<Rightarrow> bool) option \<Rightarrow> int" where
  "count_it iter fn = count_loop fn iter 0 0 iter"

text \<open>
  \<^verbatim>\<open>drop(iter, num)\<close>: \<^verbatim>\<open>let i = num; for (const x of iter) { if (i-- > 0) continue; yield x; }\<close>.
  The counter is decremented on every element, also after it has reached zero.
\<close>

fun drop_loop :: "int \<Rightarrow> val list \<Rightarrow> val list" where
  "drop_loop i [] = []"
| "drop_loop i (x # rest) = (if i > 0 then drop_loop (i - 1) rest else x # drop_loop (i - 1) rest)"

definition drop_it :: "val list \<Rightarrow> int \<Rightarrow> val list" where
  "drop_it iter num = drop_loop num iter"

text \<open>
  \<^verbatim>\<open>nth\<close>, \<^verbatim>\<open>first\<close>: \<^verbatim>\<open>for (const x of ...) return x; return undefined\<close>.
  \<^verbatim>\<open>last\<close>: the last value assigned to \<^verbatim>\<open>result\<close>, which starts as \<^verbatim>\<open>undefined\<close>.
\<close>

definition first :: "val list \<Rightarrow> val" where
  "first iter = (case iter of x # _ \<Rightarrow> x | [] \<Rightarrow> Undefined)"

definition nth_it :: "val list \<Rightarrow> int \<Rightarrow> val" where
  "nth_it iter index =
     (if index \<ge> 0 then (case drop_it iter index of x # _ \<Rightarrow> x | [] \<Rightarrow> Undefined)
      else Undefined)"

fun last_loop :: "val \<Rightarrow> val list \<Rightarrow> val" where
  "last_loop result [] = result"
| "last_loop result (x # rest) = last_loop x rest"

definition last_it :: "val list \<Rightarrow> val" where
  "last_it iter = last_loop Undefined iter"

text \<open>
  \<^verbatim>\<open>max\<close>: \<^verbatim>\<open>if (isFirst || x > r) { r = x; isFirst = false; }\<close>. The comparison \<open>gt\<close>
  is the host's \<^verbatim>\<open>x > r\<close>; it is not evaluated on the first element.
\<close>

fun max_loop :: "(val \<Rightarrow> val \<Rightarrow> bool) \<Rightarrow> val \<Rightarrow> bool \<Rightarrow> val list \<Rightarrow> val" where
  "max_loop gt r isFirst [] = r"
| "max_loop gt r isFirst (x # rest) =
     (if isFirst \<or> gt x r then max_loop gt x False rest else max_loop gt r isFirst rest)"

definition max_it :: "(val \<Rightarrow> val \<Rightarrow> bool) \<Rightarrow> val list \<Rightarrow> val" where
  "max_it gt iter = max_loop gt Undefined True iter"

text \<open>\<^verbatim>\<open>take(iter, num)\<close>: \<^verbatim>\<open>if (i-- <= 0) return; yield x\<close>.\<close>

fun take_loop :: "int \<Rightarrow> val list \<Rightarrow> val list" where
  "take_loop i [] = []"
| "take_loop i (x # rest) = (if i \<le> 0 then [] else x # take_loop (i - 1) rest)"

definition take_it :: "val list \<Rightarrow> int \<Rightarrow> val list" where
  "take_it iter num = take_loop num iter"

text \<open>
  Reading and writing an array by index, as the host does: a read past the end gives
  \<^verbatim>\<open>undefined\<close>, a write past the end extends the array (the skipped positions are holes,
  which read as \<^verbatim>\<open>undefined\<close>).
\<close>

definition js_get :: "val list \<Rightarrow> nat \<Rightarrow> val" where
  "js_get arr i = (if i < length arr then arr ! i else Undefined)"

definition js_set :: "val list \<Rightarrow> nat \<Rightarrow> val \<Rightarrow> val list" where
  "js_set arr i x =
     (if i < length arr then arr[i := x]
      else arr @ replicate (i - length arr) Undefined @ [x])"

text \<open>
  \<^verbatim>\<open>takeExceptLast(iter, num)\<close>, for \<^verbatim>\<open>num > 0\<close> the loop
  \<^verbatim>\<open>if (buffer.length >= num) yield buffer[i]; buffer[i] = x; if (++i >= num) i = 0;\<close>
  over a buffer that starts empty. \<open>tel_loop\<close> records, for every element consumed, what
  that iteration yields (at most one value); the sequence produced is the yielded values
  in order. For \<^verbatim>\<open>num <= 0\<close> the wrapper is built over \<^verbatim>\<open>iter\<close> itself.
\<close>

fun tel_loop :: "int \<Rightarrow> nat \<Rightarrow> val list \<Rightarrow> val list \<Rightarrow> val option list" where
  "tel_loop num i buffer [] = []"
| "tel_loop num i buffer (x # rest) =
     (if int (length buffer) \<ge> num then Some (js_get buffer i) else None)
     # tel_loop num (if int (i + 1) \<ge> num then 0 else i + 1) (js_set buffer i x) rest"

definition yielded :: "val option list \<Rightarrow> val list" where
  "yielded tr = concat (map (\<lambda>y. case y of Some v \<Rightarrow> [v] | None \<Rightarrow> []) tr)"

definition takeExceptLast :: "val list \<Rightarrow> int \<Rightarrow> val list" where
  "takeExceptLast iter num = (if num \<le> 0 then iter else yielded (tel_loop num 0 [] iter))"

text \<open>
  \<^verbatim>\<open>sliced(iter, start = 0, end?)\<close>; \<open>None\<close> is an \<^verbatim>\<open>end\<close> left \<^verbatim>\<open>undefined\<close>.
\<close>

definition sliced :: "val list \<Rightarrow> int \<Rightarrow> int option \<Rightarrow> val list" where
  "sliced iter start end =
     (let iter' = (if start > 0 then drop_it iter start
                   else if start < 0 then drop_it iter (count_it iter None + start)
                   else iter)
      in case end of
           None \<Rightarrow> iter'
         | Some e \<Rightarrow> if e < 0 then takeExceptLast iter' (- e) else take_it iter' (e - start))"

section \<open>Arrays shared by reference\<close>

text \<open>
  The windowing combinators and \<^verbatim>\<open>permutations\<close> hand out wrappers over arrays they go on
  using. An array is therefore an object in a store: \<open>cells\<close> maps a reference to the
  array's current contents and \<open>fresh\<close> is the next unused reference. A wrapper
  \<^verbatim>\<open>new It(arr)\<close> holds its source by reference, so a yielded wrapper is modelled by the
  reference of its backing array.
\<close>

record heap =
  cells :: "nat \<Rightarrow> val list"
  fresh :: nat

definition heap0 :: heap where
  "heap0 = \<lparr>cells = (\<lambda>_. []), fresh = 0\<rparr>"

definition alloc :: "heap \<Rightarrow> val list \<Rightarrow> nat \<times> heap" where
  "alloc h xs = (fresh h, h\<lparr>cells := (cells h)(fresh h := xs), fresh := Suc (fresh h)\<rparr>)"

definition store :: "heap \<Rightarrow> nat \<Rightarrow> val list \<Rightarrow> heap" where
  "store h a xs = h\<lparr>cells := (cells h)(a := xs)\<rparr>"

text \<open>
  A generator run is the list of its yields, each with the store at the moment of the
  yield (what the consumer can observe while the generator is suspended), and the store
  when the generator has finished. \<open>window\<close> is what the consumer reads from a yielded
  wrapper at the moment it is yielded.
\<close>

type_synonym run = "(nat \<times> heap) list \<times> heap"

definition window :: "nat \<times> heap \<Rightarrow> val list" where
  "window y = cells (snd y) (fst y)"

definition windows :: "run \<Rightarrow> val list list" where
  "windows r = map window (fst r)"

text \<open>
  A run is \<open>frozen\<close> when every yielded array has, in the store of every later yield and
  in the final store, the contents it had when it was yielded.
\<close>

fun frozen_from :: "(nat \<times> heap) list \<Rightarrow> heap \<Rightarrow> bool" where
  "frozen_from [] hf = True"
| "frozen_from (y # ys) hf =
     ((\<forall>h' \<in> set (map snd ys @ [hf]). cells h' (fst y) = window y) \<and> frozen_from ys hf)"

definition frozen :: "run \<Rightarrow> bool" where
  "frozen r = frozen_from (fst r) (snd r)"

section \<open>Windowing\<close>

text \<open>
  \<^verbatim>\<open>slicesOf(iter, size)\<close>. Each iteration: \<^verbatim>\<open>if (temp.length < size) temp.push(x);\<close>
  \<^verbatim>\<open>if (temp.length === size) { yield new It(temp); temp = []; }\<close>; after the loop
  \<^verbatim>\<open>if (temp.length > 0 || size === 0) yield new It(temp)\<close>.
\<close>

fun slicesOf_loop :: "int \<Rightarrow> heap \<Rightarrow> nat \<Rightarrow> val list \<Rightarrow> run" where
  "slicesOf_loop sz h temp [] =
     (if length (cells h temp) > 0 \<or> sz = 0 then ([(temp, h)], h) else ([], h))"
| "slicesOf_loop sz h temp (x # rest) =
     (let h1 = (if int (length (cells h temp)) < sz then store h temp (cells h temp @ [x]) else h)
      in if int (length (cells h1 temp)) = sz
         then (let (temp', h2) = alloc h1 [];
                   (ys, hf) = slicesOf_loop sz h2 temp' rest
               in ((temp, h1) # ys, hf))
         else slicesOf_loop sz h1 temp rest)"

definition slicesOf :: "heap \<Rightarrow> val list \<Rightarrow> int \<Rightarrow> run" where
  "slicesOf h iter sz = (let (temp, h1) = alloc h [] in slicesOf_loop sz h1 temp iter)"

text \<open>
  \<^verbatim>\<open>slicesOfOverlapping(iter, size)\<close>. Before the loop
  \<^verbatim>\<open>if (size === 0) yield new It([...temp])\<close>; each iteration \<^verbatim>\<open>temp.push(x);\<close>
  \<^verbatim>\<open>if (temp.length > size) temp.shift(); if (temp.length === size) yield new It([...temp])\<close>.
  The spread \<^verbatim>\<open>[...temp]\<close> allocates a new array with the current contents.
\<close>

fun slicesOfOverlapping_loop :: "int \<Rightarrow> heap \<Rightarrow> nat \<Rightarrow> val list \<Rightarrow> run" where
  "slicesOfOverlapping_loop sz h temp [] = ([], h)"
| "slicesOfOverlapping_loop sz h temp (x # rest) =
     (let h1 = store h temp (cells h temp @ [x]);
          h2 = (if int (length (cells h1 temp)) > sz then store h1 temp (tl (cells h1 temp)) else h1)
      in if int (length (cells h2 temp)) = sz
         then (let (copy, h3) = alloc h2 (cells h2 temp);
                   (ys, hf) = slicesOfOverlapping_loop sz h3 temp rest
               in ((copy, h3) # ys, hf))
         else slicesOfOverlapping_loop sz h2 temp rest)"

definition slicesOfOverlapping :: "heap \<Rightarrow> val list \<Rightarrow> int \<Rightarrow> run" where
  "slicesOfOverlapping h iter sz =
     (let (temp, h1) = alloc h []
      in if sz = 0
         then (let (copy, h2) = alloc h1 (cells h1 temp);
                   (ys, hf) = slicesOfOverlapping_loop sz h2 temp iter
               in ((copy, h2) # ys, hf))
         else slicesOfOverlapping_loop sz h1 temp iter)"

section \<open>Permutations\<close>

text \<open>
  \<^verbatim>\<open>permutations(iter)\<close>. The generator copies the input into a new array \<^verbatim>\<open>arr\<close>,
  yields a wrapper over it, and then runs
  \<^verbatim>\<open>while (i < arr.length) { if (c[i] < i) { swap arr[j], arr[i]; yield new It(arr); c[i]++; i = 0; } else { c[i++] = 0; } }\<close>
  with \<^verbatim>\<open>j = i % 2 === 0 ? 0 : c[i]\<close>. The counter array \<^verbatim>\<open>c\<close> never leaves the
  generator; it is the map from the indices below \<^verbatim>\<open>arr.length\<close> to its entries, all 0
  at the start. The destructuring swap reads both elements and then writes
  \<^verbatim>\<open>arr[j]\<close> and \<^verbatim>\<open>arr[i]\<close>, in this order; both indices are in range by the two
  tests that guard the swap.
\<close>

text \<open>
  The loop terminates on every state: read as a number in the factorial base, the counters
  from position \<open>i\<close> upwards leave \<open>swaps_left\<close> swaps to come; a swap lowers it by at
  least one, and a reset keeps it and advances \<open>i\<close>.
\<close>

definition swaps_left :: "nat \<Rightarrow> (nat \<Rightarrow> nat) \<Rightarrow> nat \<Rightarrow> nat" where
  "swaps_left n c i = (\<Sum>k = i..<n. (k - min (c k) k) * fact k)"

function perm_loop :: "heap \<Rightarrow> nat \<Rightarrow> (nat \<Rightarrow> nat) \<Rightarrow> nat \<Rightarrow> run" where
  "perm_loop h arr c i =
     (if i < length (cells h arr) then
        (if c i < i then
           (let j = (if i mod 2 = 0 then 0 else c i);
                a = cells h arr;
                h' = store h arr (a[j := a ! i, i := a ! j]);
                (ys, hf) = perm_loop h' arr (c(i := c i + 1)) 0
            in ((arr, h') # ys, hf))
         else perm_loop h arr (c(i := 0)) (i + 1))
      else ([], h))"
  by pat_completeness auto

lemma sum_mult_fact: "(\<Sum>k = 0..<i. k * fact k) + 1 = (fact i :: nat)"
  by (induction i) (simp_all add: algebra_simps)

lemma swaps_left_swap:
  assumes "i < n" "c i < i"
  shows "swaps_left n (c(i := c i + 1)) 0 < swaps_left n c i"
proof -
  let ?c = "c(i := c i + 1)"
  let ?f = "\<lambda>c k. (k - min (c k) k) * (fact k :: nat)"
  have split: "{0..<n} = {0..<i} \<union> {i..<n}" "{0..<i} \<inter> {i..<n} = {}"
    using assms by auto
  have "swaps_left n ?c 0 = (\<Sum>k = 0..<i. ?f ?c k) + (\<Sum>k = i..<n. ?f ?c k)"
    unfolding swaps_left_def by (subst split(1)) (simp add: sum.union_disjoint split(2))
  moreover have "(\<Sum>k = 0..<i. ?f ?c k) \<le> (\<Sum>k = 0..<i. k * fact k)"
    by (rule sum_mono) simp
  moreover have "(\<Sum>k = i..<n. ?f ?c k) + fact i = (\<Sum>k = i..<n. ?f c k)"
  proof -
    have "(\<Sum>k = i..<n. ?f ?c k) = ?f ?c i + (\<Sum>k = Suc i..<n. ?f ?c k)"
      using assms by (simp add: sum.atLeast_Suc_lessThan)
    moreover have "(\<Sum>k = i..<n. ?f c k) = ?f c i + (\<Sum>k = Suc i..<n. ?f c k)"
      using assms by (simp add: sum.atLeast_Suc_lessThan)
    moreover have "(\<Sum>k = Suc i..<n. ?f ?c k) = (\<Sum>k = Suc i..<n. ?f c k)"
      by (rule sum.cong) auto
    moreover have "?f ?c i + fact i = ?f c i"
    proof -
      have "i - c i = Suc (i - Suc (c i))" using assms by simp
      then show ?thesis using assms by (simp add: min_def)
    qed
    ultimately show ?thesis by simp
  qed
  ultimately show ?thesis
    using sum_mult_fact [of i] unfolding swaps_left_def by linarith
qed

lemma swaps_left_skip:
  assumes "i < n" "\<not> c i < i"
  shows "swaps_left n (c(i := 0)) (i + 1) = swaps_left n c i"
proof -
  let ?f = "\<lambda>c k. (k - min (c k) k) * (fact k :: nat)"
  have "(\<Sum>k = i..<n. ?f c k) = ?f c i + (\<Sum>k = Suc i..<n. ?f c k)"
    using assms by (simp add: sum.atLeast_Suc_lessThan)
  moreover have "(\<Sum>k = Suc i..<n. ?f (c(i := 0)) k) = (\<Sum>k = Suc i..<n. ?f c k)"
    by (rule sum.cong) auto
  moreover have "?f c i = 0" using assms by (simp add: min_def)
  ultimately show ?thesis by (simp add: swaps_left_def)
qed

termination perm_loop
proof (relation "measures [\<lambda>(h, arr, c, i). swaps_left (length (cells h arr)) c i,
                          \<lambda>(h, arr, c, i). length (cells h arr) - i]", goal_cases)
  case 1
  show ?case by simp
next
  case (2 h arr c i j a h')
  then show ?case
    using swaps_left_swap [of i "length (cells h arr)" c] by (simp add: store_def)
next
  case (3 h arr c i)
  then show ?case
    using swaps_left_skip [of i "length (cells h arr)" c] by simp
qed

definition permutations :: "heap \<Rightarrow> val list \<Rightarrow> run" where
  "permutations h iter =
     (let (arr, h1) = alloc h (toArray iter);
          (ys, hf) = perm_loop h1 arr (\<lambda>_. 0) 0
      in ((arr, h1) # ys, hf))"

declare perm_loop.simps [simp del]

text \<open>The array after the swap of one iteration, as a function of the array before it.\<close>

definition swapped :: "val list \<Rightarrow> (nat \<Rightarrow> nat) \<Rightarrow> nat \<Rightarrow> val list" where
  "swapped a c i = (let j = (if i mod 2 = 0 then 0 else c i) in a[j := a ! i, i := a ! j])"

subsection \<open>The recursive form of the swap procedure\<close>

text \<open>
  The loop of \<^verbatim>\<open>permutations\<close> is the iterative form of a recursive procedure: to go
  through the arrangements of the first \<open>k + 1\<close> positions, go through those of the first
  \<open>k\<close>, and then \<open>k\<close> times swap position \<open>k\<close> with position 0 (\<open>k\<close> even) or with the
  position of the round (\<open>k\<close> odd), yield, and go through the first \<open>k\<close> again. \<open>arrange k a\<close>
  is the list of arrays this yields from the array \<open>a\<close>, and the array it ends with. It
  is used to reason about the loop, which is shown to yield the same arrays.
\<close>

definition swp :: "val list \<Rightarrow> nat \<Rightarrow> nat \<Rightarrow> val list" where
  "swp a j i = a[j := a ! i, i := a ! j]"

primrec phases :: "(val list \<Rightarrow> val list list \<times> val list) \<Rightarrow> nat \<Rightarrow> nat \<Rightarrow> val list
    \<Rightarrow> val list list \<times> val list" where
  "phases H k 0 a = ([], a)"
| "phases H k (Suc r) a =
     (let b = swp a (if k mod 2 = 0 then 0 else k - Suc r) k;
          (o1, a1) = H b;
          (o2, a2) = phases H k r a1
      in (b # o1 @ o2, a2))"

primrec arrange :: "nat \<Rightarrow> val list \<Rightarrow> val list list \<times> val list" where
  "arrange 0 a = ([], a)"
| "arrange (Suc k) a =
     (let (o1, a1) = arrange k a;
          (o2, a2) = phases (arrange k) k k a1
      in (o1 @ o2, a2))"

text \<open>
  Positions as indices into the array the procedure started from. \<open>tau j k\<close> is the swap
  of positions \<open>j\<close> and \<open>k\<close>; \<open>fin_idx k p\<close> is the index of the element that \<open>arrange k\<close>
  leaves at position \<open>p\<close>; \<open>round_idx k m p\<close> is the index of the element at position \<open>p\<close>
  when round \<open>m\<close> of \<open>arrange (Suc k)\<close> begins.
\<close>

definition tau :: "nat \<Rightarrow> nat \<Rightarrow> nat \<Rightarrow> nat" where
  "tau j k p = (if p = j then k else if p = k then j else p)"

definition fin_idx :: "nat \<Rightarrow> nat \<Rightarrow> nat" where
  "fin_idx k p =
     (if p \<ge> k then p
      else if odd k then (if p = 0 then k - 1 else if p = k - 1 then 0 else p)
      else if p = k - 1 then 0
      else if p = k - 2 then k - 1
      else if p = 0 then k - 3
      else if p = 1 then k - 2
      else p - 1)"

definition wrap :: "nat \<Rightarrow> nat \<Rightarrow> nat" where
  "wrap k t = (if t > k then t - Suc k else t)"

definition pos :: "nat \<Rightarrow> nat \<Rightarrow> nat" where
  "pos k t = (if t = 0 then k else if t \<ge> k - 1 then t - 1 else if t = 1 then 0 else k - 1 - t)"

definition coord :: "nat \<Rightarrow> nat \<Rightarrow> nat" where
  "coord k p = (if p = k then 0 else if p \<ge> k - 2 then p + 1 else if p = 0 then 1 else k - 1 - p)"

definition round_idx :: "nat \<Rightarrow> nat \<Rightarrow> nat \<Rightarrow> nat" where
  "round_idx k m p =
     (if p > k then p
      else if even k then fin_idx k (pos k (wrap k (coord k p + m)))
      else if m = 0 then fin_idx k p
      else if m \<ge> k then fin_idx (Suc k) p
      else if p = 0 then (if odd m then 0 else k)
      else if p = k - 1 then (if odd m then k else 0)
      else if p = k then (if m = 1 then k - 1 else m - 1)
      else if p < m then (if p = 1 then k - 1 else p - 1)
      else p)"

section \<open>Transposition\<close>

text \<open>
  \<^verbatim>\<open>mapBy(iter, fn)\<close>: \<^verbatim>\<open>for (const value of iter) yield fn(value, idx++, iter)\<close>. The
  callback may throw; a traversal then ends with that error at the element where it is
  thrown.
\<close>

fun mapBy_loop :: "(val \<Rightarrow> int \<Rightarrow> val list \<Rightarrow> error + val) \<Rightarrow> val list \<Rightarrow> int \<Rightarrow> val list
    \<Rightarrow> error + val list" where
  "mapBy_loop fn iter idx [] = Inr []"
| "mapBy_loop fn iter idx (v # rest) =
     (case fn v idx iter of
        Inl e \<Rightarrow> Inl e
      | Inr y \<Rightarrow> (case mapBy_loop fn iter (idx + 1) rest of
                   Inl e \<Rightarrow> Inl e
                 | Inr ys \<Rightarrow> Inr (y # ys)))"

definition mapBy :: "val list \<Rightarrow> (val \<Rightarrow> int \<Rightarrow> val list \<Rightarrow> error + val) \<Rightarrow> error + val list" where
  "mapBy iter fn = mapBy_loop fn iter 0 iter"

text \<open>
  The values with a \<^verbatim>\<open>Symbol.iterator\<close> and the elements a traversal of them produces:
  iterable objects, and strings (one string per character).
\<close>

fun iterable :: "val \<Rightarrow> val list option" where
  "iterable (Seq xs) = Some xs"
| "iterable (String s) = Some (map (\<lambda>ch. String [ch]) s)"
| "iterable _ = None"

text \<open>
  The callback of the width computation:
  \<^verbatim>\<open>if (!arr[Symbol.iterator]) throw new TypeError(...); return count(arr)\<close>.
  On \<^verbatim>\<open>null\<close> and \<^verbatim>\<open>undefined\<close> the property access itself is the host's TypeError.
\<close>

definition row_width :: "val \<Rightarrow> int \<Rightarrow> val list \<Rightarrow> error + val" where
  "row_width arr idx subject =
     (if arr = Null \<or> arr = Undefined then Inl (TypeError ''Cannot read properties'')
      else case iterable arr of
             None \<Rightarrow> Inl (TypeError ''Cannot transpose because item is not iterable'')
           | Some xs \<Rightarrow> Inr (Number (count_it xs None)))"

text \<open>
  One emitted row, \<^verbatim>\<open>for (const arr of iter) yield nth(arr, x)\<close>, read to its end; \<^verbatim>\<open>nth\<close>
  traverses \<^verbatim>\<open>arr\<close>, which the host refuses with a TypeError when it is not iterable.
\<close>

fun column :: "int \<Rightarrow> val list \<Rightarrow> error + val list" where
  "column x [] = Inr []"
| "column x (arr # rest) =
     (case iterable arr of
        None \<Rightarrow> Inl (TypeError ''not iterable'')
      | Some xs \<Rightarrow> (case column x rest of
                     Inl e \<Rightarrow> Inl e
                   | Inr ys \<Rightarrow> Inr (nth_it xs x # ys)))"

text \<open>
  \<^verbatim>\<open>for (let x = 0; x < width; x++) yield genIt(...)\<close>, every emitted row read to its end.
  \<^verbatim>\<open>width\<close> is what \<^verbatim>\<open>max\<close> returned: a number, or \<^verbatim>\<open>undefined\<close> for no rows.
\<close>

function transpose_loop :: "val \<Rightarrow> val list \<Rightarrow> int \<Rightarrow> error + val list" where
  "transpose_loop width iter x =
     (if js_lt (Number x) width
      then (case column x iter of
              Inl e \<Rightarrow> Inl e
            | Inr row \<Rightarrow> (case transpose_loop width iter (x + 1) of
                           Inl e \<Rightarrow> Inl e
                         | Inr rows \<Rightarrow> Inr (Seq row # rows)))
      else Inr [])"
  by pat_completeness auto
termination
proof (relation "measure (\<lambda>(width, iter, x). case to_num width of Some w \<Rightarrow> nat (w - x) | None \<Rightarrow> 0)",
    goal_cases)
  case 1
  show ?case by simp
next
  case (2 width iter x row)
  then show ?case by (cases width) (auto split: option.splits)
qed

declare transpose_loop.simps [simp del]

definition transpose_it :: "val list \<Rightarrow> error + val list" where
  "transpose_it iter =
     (case mapBy iter row_width of
        Inl e \<Rightarrow> Inl e
      | Inr counts \<Rightarrow> transpose_loop (max_it js_gt counts) iter 0)"

section \<open>Sorting\<close>

text \<open>
  \<^verbatim>\<open>sortType\<close>: the rank of a value, by its \<^verbatim>\<open>typeof\<close>. \<^verbatim>\<open>typeof NaN\<close> is
  \<^verbatim>\<open>"number"\<close>. Objects, arrays, functions and symbols fall through to the default rank
  3; \<^verbatim>\<open>null\<close>, whose \<^verbatim>\<open>typeof\<close> is \<^verbatim>\<open>"object"\<close>, is picked out before.
\<close>

fun sortType :: "val \<Rightarrow> int" where
  "sortType (Boolean _) = 0"
| "sortType (BigInt _) = 1"
| "sortType (Number _) = 1"
| "sortType NaN = 1"
| "sortType (String _) = 2"
| "sortType Undefined = 5"
| "sortType Null = 4"
| "sortType _ = 3"

text \<open>The default comparator of \<^verbatim>\<open>sorted\<close>.\<close>

definition default_comparator :: "val \<Rightarrow> val \<Rightarrow> int" where
  "default_comparator a b =
     (let ta = sortType a; tb = sortType b
      in if ta \<noteq> tb then ta - tb
         else if ta \<ge> 3 then 0
         else if js_gt a b then 1 else if js_lt a b then - 1 else 0)"

text \<open>
  The host's \<^verbatim>\<open>Array.prototype.sort\<close> with a comparison function. The language standard
  fixes its result only when the comparison function is consistent on the elements it
  compares: then the \<^verbatim>\<open>undefined\<close> elements go to the end without being compared, the
  other elements are put in the order of the comparison function, and elements that
  compare equal keep their relative order. For any other comparison function the order
  is left to the implementation.

  \<open>consistent cmp S\<close>: on the values of \<open>S\<close> the results of \<open>cmp\<close> are those of a total
  preorder (this gives each requirement the standard lists: reflexivity and symmetry of
  comparing equal, and transitivity of comparing equal, less and greater).
  \<open>array_sort\<close> is the result the standard fixes. The sort of the host is a parameter
  \<open>hsort\<close> of \<open>sorted_it\<close>; a host is \<open>conforming\<close> when it returns the fixed result
  wherever the standard fixes one. Nothing is assumed of it elsewhere.
\<close>

definition consistent :: "(val \<Rightarrow> val \<Rightarrow> int) \<Rightarrow> val set \<Rightarrow> bool" where
  "consistent cmp S \<longleftrightarrow>
     (\<forall>a \<in> S. \<forall>b \<in> S. (cmp a b < 0 \<longleftrightarrow> cmp b a > 0) \<and> (cmp a b = 0 \<longleftrightarrow> cmp b a = 0))
     \<and> (\<forall>a \<in> S. \<forall>b \<in> S. \<forall>c \<in> S. cmp a b \<le> 0 \<and> cmp b c \<le> 0 \<longrightarrow> cmp a c \<le> 0)"

fun insert_sorted :: "(val \<Rightarrow> val \<Rightarrow> int) \<Rightarrow> val \<Rightarrow> val list \<Rightarrow> val list" where
  "insert_sorted cmp x [] = [x]"
| "insert_sorted cmp x (y # ys) =
     (if cmp x y \<le> 0 then x # y # ys else y # insert_sorted cmp x ys)"

definition array_sort :: "(val \<Rightarrow> val \<Rightarrow> int) \<Rightarrow> val list \<Rightarrow> val list" where
  "array_sort cmp arr =
     foldr (insert_sorted cmp) (filter (\<lambda>x. x \<noteq> Undefined) arr) []
     @ filter (\<lambda>x. x = Undefined) arr"

definition conforming :: "((val \<Rightarrow> val \<Rightarrow> int) \<Rightarrow> val list \<Rightarrow> val list) \<Rightarrow> bool" where
  "conforming hsort \<longleftrightarrow>
     (\<forall>cmp arr. consistent cmp {x \<in> set arr. x \<noteq> Undefined} \<longrightarrow> hsort cmp arr = array_sort cmp arr)"

text \<open>
  \<^verbatim>\<open>sorted(iter, by, comparator)\<close>: the input is copied into an array, the array is
  sorted by the host with \<^verbatim>\<open>(a, b) => comparator(by(a), by(b))\<close> and its elements are
  yielded in order. \<open>sorted_default\<close> is the call with both optional arguments left out.
\<close>

definition sorted_it :: "((val \<Rightarrow> val \<Rightarrow> int) \<Rightarrow> val list \<Rightarrow> val list) \<Rightarrow> val list \<Rightarrow> (val \<Rightarrow> val)
    \<Rightarrow> (val \<Rightarrow> val \<Rightarrow> int) \<Rightarrow> val list" where
  "sorted_it hsort iter by comparator = hsort (\<lambda>a b. comparator (by a) (by b)) (toArray iter)"

definition sorted_default :: "((val \<Rightarrow> val \<Rightarrow> int) \<Rightarrow> val list \<Rightarrow> val list) \<Rightarrow> val list \<Rightarrow> val list" where
  "sorted_default hsort iter = sorted_it hsort iter (\<lambda>value. value) default_comparator"

text \<open>
  The order the ranks and the comparison within a rank describe: \<open>a\<close> may stand before
  \<open>b\<close> when its rank is lower, or the ranks are equal and either it is the rank of the
  other objects or above, or \<open>a\<close> is not greater than \<open>b\<close> by the host's comparison.
\<close>

definition ranked_before :: "val \<Rightarrow> val \<Rightarrow> bool" where
  "ranked_before a b \<longleftrightarrow>
     sortType a < sortType b
     \<or> (sortType a = sortType b \<and> (3 \<le> sortType a \<or> \<not> js_gt a b))"

section \<open>The lazy builder\<close>

text \<open>
  Modelled from the spec: the wrapper class \<^verbatim>\<open>It\<close> and the builder \<^verbatim>\<open>genIt\<close> are imported
  from \<^verbatim>\<open>../It\<close>, which is not among the sources. The specification says that
  \<^verbatim>\<open>buildLazy(recipe)\<close> returns a wrapper whose traversal, each time requested, invokes
  \<^verbatim>\<open>recipe()\<close> anew and iterates its suspend points in order, and that no state is shared
  between separate traversals of the same wrapper.

  A deterministic, side-effect-free recipe over an unchanged source is a function of no
  argument to the values one run yields, in order. The program state holds the open
  traversals: for each, the values its run has not handed out yet. Requesting a traversal
  runs the recipe and opens a new entry; pulling from a traversal takes the next value of
  its own entry.
\<close>

datatype wrapper = Lazy "unit \<Rightarrow> val list"

definition genIt :: "(unit \<Rightarrow> val list) \<Rightarrow> wrapper" where
  "genIt recipe = Lazy recipe"

record traversals =
  pending :: "nat \<Rightarrow> val list"
  opened :: nat

definition iterator :: "wrapper \<Rightarrow> traversals \<Rightarrow> nat \<times> traversals" where
  "iterator w s =
     (case w of Lazy recipe \<Rightarrow>
        (opened s, s\<lparr>pending := (pending s)(opened s := recipe ()), opened := Suc (opened s)\<rparr>))"

definition pull :: "nat \<Rightarrow> traversals \<Rightarrow> val option \<times> traversals" where
  "pull t s =
     (case pending s t of
        [] \<Rightarrow> (None, s)
      | x # rest \<Rightarrow> (Some x, s\<lparr>pending := (pending s)(t := rest)\<rparr>))"

text \<open>\<^verbatim>\<open>[...iter]\<close> on a wrapper: request a traversal and pull until it is exhausted.\<close>

function drain :: "nat \<Rightarrow> traversals \<Rightarrow> val list \<times> traversals" where
  "drain t s =
     (case pull t s of
        (None, s') \<Rightarrow> ([], s')
      | (Some x, s') \<Rightarrow> (let (xs, s'') = drain t s' in (x # xs, s'')))"
  by pat_completeness auto
termination
  by (relation "measure (\<lambda>(t, s). length (pending s t))")
     (auto simp: pull_def split: list.splits)

declare drain.simps [simp del]

definition toArray_lazy :: "wrapper \<Rightarrow> traversals \<Rightarrow> val list \<times> traversals" where
  "toArray_lazy w s = (let (t, s') = iterator w s in drain t s')"

section \<open>Properties\<close>

lemma count_loop_None: "count_loop None iter c i xs = c + int (length xs)"
  by (induction xs arbitrary: c) auto

lemma count_it_length: "count_it iter None = int (length iter)"
  by (simp add: count_it_def count_loop_None)

lemma drop_loop_drop: "drop_loop i xs = drop (nat i) xs"
proof (induction xs arbitrary: i)
  case Nil
  then show ?case by simp
next
  case (Cons x xs)
  show ?case
  proof (cases "i > 0")
    case True
    then have "nat i = Suc (nat (i - 1))" by simp
    with True Cons show ?thesis by simp
  next
    case False
    then have "nat i = 0" "nat (i - 1) = 0" by simp_all
    with False Cons show ?thesis by simp
  qed
qed

lemma drop_it_drop: "drop_it iter num = drop (nat num) iter"
  by (simp add: drop_it_def drop_loop_drop)

text \<open>
  C9. The scalar queries return \<open>Undefined\<close>, the host's absence-of-value marker, where
  there is no element to return: \<open>first\<close> and \<open>last\<close> on the empty sequence, \<open>nth\<close> at a
  negative index or at an index past the end, \<open>max\<close> on the empty sequence (whatever the
  host's comparison is). None of the four has a failing branch: each is a total function
  into the values.
\<close>

theorem C9_empty_queries_return_undefined:
  "first [] = Undefined \<and> last_it [] = Undefined \<and> max_it gt [] = Undefined
   \<and> (index < 0 \<or> index \<ge> int (length iter) \<longrightarrow> nth_it iter index = Undefined)"
  by (auto simp: first_def last_it_def max_it_def nth_it_def drop_it_drop split: list.splits)

theorem C9_witness:
  "nth_it [Number 1, Number 2] 2 = Undefined \<and> nth_it [Number 1, Number 2] (- 1) = Undefined
   \<and> nth_it [Number 1, Number 2] 1 = Number 2 \<and> first [] = Undefined
   \<and> last_it [] = Undefined \<and> max_it js_gt [] = Undefined"
  using C9_empty_queries_return_undefined [of js_gt 2 "[Number 1, Number 2]"]
        C9_empty_queries_return_undefined [of js_gt "- 1" "[Number 1, Number 2]"]
  by (simp add: nth_it_def drop_it_def)

subsection \<open>Negative start of a slice\<close>

text \<open>
  C6. For a negative \<open>start\<close> and no \<open>end\<close>, \<open>sliced\<close> is \<open>drop\<close> applied to the count of
  the whole sequence plus \<open>start\<close>; the count is the length of the sequence (one full
  pass), a negative sum drops nothing, so the number of leading elements dropped is the
  sum clamped at 0. On \<open>[1,2,3,4,5]\<close> with start \<open>-2\<close> the result is \<open>[4,5]\<close>.
\<close>

theorem C6_sliced_negative_start:
  "start < 0 \<Longrightarrow>
     sliced iter start None = drop_it iter (count_it iter None + start)
     \<and> count_it iter None = int (length iter)
     \<and> sliced iter start None = drop (nat (max 0 (int (length iter) + start))) iter
     \<and> sliced [Number 1, Number 2, Number 3, Number 4, Number 5] (- 2) None
         = [Number 4, Number 5]"
  by (simp add: sliced_def count_it_length drop_it_drop max_def)

theorem C6_witness:
  "(- 7 :: int) < 0 \<and> sliced [Number 1, Number 2, Number 3] (- 7) None
      = [Number 1, Number 2, Number 3]
   \<and> sliced [Number 1, Number 2, Number 3] (- 1) None = [Number 3]"
  using C6_sliced_negative_start [of "- 7" "[Number 1, Number 2, Number 3]"]
        C6_sliced_negative_start [of "- 1" "[Number 1, Number 2, Number 3]"]
  by (simp add: drop_it_def)

subsection \<open>All but the trailing elements\<close>

lemma yielded_simps [simp]:
  "yielded [] = []"
  "yielded (Some v # tr) = v # yielded tr"
  "yielded (None # tr) = yielded tr"
  "yielded (tr @ tr') = yielded tr @ yielded tr'"
  "yielded (map Some vs) = vs"
  "yielded (replicate k None) = []"
  by (induction vs; simp add: yielded_def)+

lemma js_set_append: "js_set buffer (length buffer) x = buffer @ [x]"
  by (simp add: js_set_def)

lemma tel_loop_full:
  "0 < num \<Longrightarrow> int (length buffer) = num \<Longrightarrow> i < length buffer \<Longrightarrow>
   tel_loop num i buffer rest
     = map Some (take (length rest) (drop i buffer @ take i buffer @ rest))"
proof (induction rest arbitrary: i buffer)
  case Nil
  then show ?case by simp
next
  case (Cons x rest)
  let ?b = "js_set buffer i x"
  have b: "?b = buffer[i := x]" "length ?b = length buffer"
    using Cons.prems by (simp_all add: js_set_def)
  have hd: "drop i buffer = buffer ! i # drop (Suc i) buffer"
    using Cons.prems by (simp add: Cons_nth_drop_Suc)
  show ?case
  proof (cases "int (i + 1) \<ge> num")
    case True
    with Cons.prems have i: "Suc i = length buffer" by simp
    have "tel_loop num 0 ?b rest = map Some (take (length rest) (drop 0 ?b @ take 0 ?b @ rest))"
      using Cons.prems b by (intro Cons.IH) auto
    moreover have "?b = take i buffer @ [x]"
      using i b upd_conv_take_nth_drop [of i buffer x] by simp
    ultimately show ?thesis
      using True Cons.prems i hd by (simp add: js_get_def)
  next
    case False
    with Cons.prems have i: "Suc i < length buffer" by simp
    have "tel_loop num (Suc i) ?b rest
            = map Some (take (length rest) (drop (Suc i) ?b @ take (Suc i) ?b @ rest))"
      using Cons.prems b i by (intro Cons.IH) simp_all
    moreover have "drop (Suc i) ?b = drop (Suc i) buffer" "take (Suc i) ?b = take i buffer @ [x]"
      using i b by (simp_all add: take_Suc_conv_app_nth)
    ultimately show ?thesis
      using False Cons.prems hd by (simp add: js_get_def)
  qed
qed

lemma tel_loop_fill:
  "0 < num \<Longrightarrow> i = length buffer \<Longrightarrow> int i < num \<Longrightarrow>
   tel_loop num i buffer rest
     = replicate (min (nat num - i) (length rest)) None
       @ map Some (take (length rest - (nat num - i)) (buffer @ rest))"
proof (induction rest arbitrary: i buffer)
  case Nil
  then show ?case by simp
next
  case (Cons x rest)
  have b: "js_set buffer i x = buffer @ [x]"
    using Cons.prems by (simp add: js_set_def)
  show ?case
  proof (cases "int (i + 1) \<ge> num")
    case True
    with Cons.prems have i: "nat num = Suc i" by simp
    have "tel_loop num 0 (buffer @ [x]) rest
            = map Some (take (length rest) (drop 0 (buffer @ [x]) @ take 0 (buffer @ [x]) @ rest))"
      using Cons.prems i by (intro tel_loop_full) simp_all
    then show ?thesis
      using True Cons.prems i b by simp
  next
    case False
    have "tel_loop num (Suc i) (buffer @ [x]) rest
            = replicate (min (nat num - Suc i) (length rest)) None
              @ map Some (take (length rest - (nat num - Suc i)) ((buffer @ [x]) @ rest))"
      using Cons.prems False by (intro Cons.IH) simp_all
    moreover have "nat num - i = Suc (nat num - Suc i)"
      using False Cons.prems by simp
    ultimately show ?thesis
      using False Cons.prems b by simp
  qed
qed

lemma tel_loop_trace:
  "0 < num \<Longrightarrow> tel_loop num 0 [] iter
     = replicate (min (nat num) (length iter)) None @ map Some (take (length iter - nat num) iter)"
  using tel_loop_fill [of num 0 "[]" iter] by simp

text \<open>
  C7. For \<open>num > 0\<close>, \<open>takeExceptLast\<close> produces the sequence without its last \<open>num\<close>
  elements, and it does so with a delay of exactly \<open>num\<close>: the iteration that consumes
  element \<open>k\<close> of the source yields element \<open>k - num\<close> when \<open>k \<ge> num\<close> and nothing
  before, so every output depends only on the elements consumed so far. For \<open>num \<le> 0\<close>
  the result is the input itself.
\<close>

theorem C7_takeExceptLast_delay:
  "(0 < num \<longrightarrow>
      takeExceptLast iter num = take (length iter - nat num) iter
      \<and> length (tel_loop num 0 [] iter) = length iter
      \<and> (\<forall>k < length iter. tel_loop num 0 [] iter ! k
             = (if nat num \<le> k then Some (iter ! (k - nat num)) else None)))
   \<and> (num \<le> 0 \<longrightarrow> takeExceptLast iter num = iter)"
proof (intro conjI impI allI)
  assume pos: "0 < num"
  note tr = tel_loop_trace [OF pos, of iter]
  show "takeExceptLast iter num = take (length iter - nat num) iter"
    using pos by (simp add: takeExceptLast_def tr)
  show "length (tel_loop num 0 [] iter) = length iter"
    by (simp add: tr)
  fix k assume k: "k < length iter"
  show "tel_loop num 0 [] iter ! k = (if nat num \<le> k then Some (iter ! (k - nat num)) else None)"
    using k by (simp add: tr nth_append)
next
  assume "num \<le> 0"
  then show "takeExceptLast iter num = iter"
    by (simp add: takeExceptLast_def)
qed

theorem C7_witness:
  "takeExceptLast [Number 1, Number 2, Number 3, Number 4, Number 5] 2
     = [Number 1, Number 2, Number 3]
   \<and> tel_loop 2 0 [] [Number 1, Number 2, Number 3, Number 4, Number 5]
     = [None, None, Some (Number 1), Some (Number 2), Some (Number 3)]
   \<and> takeExceptLast [Number 1, Number 2] 0 = [Number 1, Number 2]
   \<and> takeExceptLast [Number 1, Number 2] 5 = []"
  using C7_takeExceptLast_delay [of 2 "[Number 1, Number 2, Number 3, Number 4, Number 5]"]
        C7_takeExceptLast_delay [of 0 "[Number 1, Number 2]"]
        C7_takeExceptLast_delay [of 5 "[Number 1, Number 2]"]
  by (simp add: js_get_def js_set_def)

subsection \<open>Zero-width windows\<close>

lemma slicesOf_loop_zero:
  "cells h temp = [] \<Longrightarrow>
   windows (slicesOf_loop 0 h temp rest) = replicate (Suc (length rest)) []"
proof (induction rest arbitrary: h temp)
  case Nil
  then show ?case by (simp add: windows_def window_def)
next
  case (Cons x rest)
  have "windows (slicesOf_loop 0 (snd (alloc h [])) (fst (alloc h [])) rest)
          = replicate (Suc (length rest)) []"
    by (rule Cons.IH) (simp add: alloc_def)
  with Cons.prems show ?case
    by (simp add: windows_def window_def case_prod_beta)
qed

lemma slicesOfOverlapping_loop_zero:
  "cells h temp = [] \<Longrightarrow>
   windows (slicesOfOverlapping_loop 0 h temp rest) = replicate (length rest) []"
proof (induction rest arbitrary: h)
  case Nil
  then show ?case by (simp add: windows_def)
next
  case (Cons x rest)
  let ?h2 = "store (store h temp [x]) temp []"
  have "windows (slicesOfOverlapping_loop 0 (snd (alloc ?h2 [])) temp rest)
          = replicate (length rest) []"
    by (rule Cons.IH) (simp add: alloc_def store_def)
  with Cons.prems show ?case
    by (simp add: windows_def window_def store_def alloc_def case_prod_beta)
qed

text \<open>
  C1, as stated, fails: with size 0 the test \<^verbatim>\<open>temp.length === size\<close> holds on every
  iteration, so \<open>slicesOf\<close> yields an empty chunk for each element consumed, and one more
  after the loop. On a two-element input it emits three empty chunks, not one.
\<close>

theorem C1_counterexample:
  "windows (slicesOf heap0 [Number 1, Number 2] 0) = [[], [], []]
   \<and> length (windows (slicesOf heap0 [Number 1, Number 2] 0)) \<noteq> 1"
  by (simp add: windows_def window_def slicesOf_def alloc_def store_def heap0_def)

text \<open>
  C1, amended. For every input sequence, \<open>slicesOf\<close> with size 0 emits one empty chunk per
  element of the input and one more at the end: \<open>length iter + 1\<close> chunks, all empty
  (exactly one only when the input is empty).
\<close>

theorem C1_slicesOf_zero:
  "windows (slicesOf h iter 0) = replicate (length iter + 1) []"
  by (simp add: slicesOf_def case_prod_beta slicesOf_loop_zero alloc_def)

text \<open>
  C2, as stated, fails: with size 0 \<open>slicesOfOverlapping\<close> yields the empty window once
  before the loop, and then again on every iteration, where the element pushed is shifted
  out at once and the buffer has length 0 again. A two-element input gives three windows.
\<close>

theorem C2_counterexample:
  "windows (slicesOfOverlapping heap0 [Number 1, Number 2] 0) = [[], [], []]
   \<and> length (windows (slicesOfOverlapping heap0 [Number 1, Number 2] 0)) \<noteq> 1"
  by (simp add: windows_def window_def slicesOfOverlapping_def alloc_def store_def heap0_def)

text \<open>
  C2, amended. For every input sequence, \<open>slicesOfOverlapping\<close> with size 0 emits one empty
  window before processing any element and one further empty window for each element
  processed: \<open>length iter + 1\<close> windows, all empty.
\<close>

theorem C2_slicesOfOverlapping_zero:
  "windows (slicesOfOverlapping h iter 0) = replicate (length iter + 1) []"
proof -
  let ?h1 = "snd (alloc h [])" and ?temp = "fst (alloc h [])"
  let ?h2 = "snd (alloc ?h1 (cells ?h1 ?temp))"
  have "cells ?h2 ?temp = []"
    by (simp add: alloc_def)
  then have "windows (slicesOfOverlapping_loop 0 ?h2 ?temp iter) = replicate (length iter) []"
    by (rule slicesOfOverlapping_loop_zero)
  moreover have "window (fst (alloc ?h1 (cells ?h1 ?temp)), ?h2) = []"
    by (simp add: window_def alloc_def)
  ultimately show ?thesis
    by (simp add: slicesOfOverlapping_def case_prod_beta windows_def)
qed

subsection \<open>Yielded windows are never written again\<close>

lemma slicesOf_loop_keeps:
  "slicesOf_loop sz h temp rest = (ys, hf) \<Longrightarrow> h' \<in> set (map snd ys @ [hf]) \<Longrightarrow>
   a < fresh h \<Longrightarrow> a \<noteq> temp \<Longrightarrow> cells h' a = cells h a"
proof (induction rest arbitrary: h temp ys hf)
  case Nil
  then show ?case by (auto split: if_splits)
next
  case (Cons x rest)
  let ?h1 = "if int (length (cells h temp)) < sz then store h temp (cells h temp @ [x]) else h"
  have h1: "fresh ?h1 = fresh h" "cells ?h1 a = cells h a"
    using Cons.prems by (simp_all add: store_def)
  show ?case
  proof (cases "int (length (cells ?h1 temp)) = sz")
    case True
    obtain zs where run: "slicesOf_loop sz (snd (alloc ?h1 [])) (fst (alloc ?h1 [])) rest = (zs, hf)"
      and ys: "ys = (temp, ?h1) # zs"
      using Cons.prems(1) True by (auto simp: Let_def split: prod.splits if_splits)
    from Cons.prems(2) ys consider "h' = ?h1" | "h' \<in> set (map snd zs @ [hf])"
      by auto
    then show ?thesis
    proof cases
      case 1
      with h1 show ?thesis by simp
    next
      case 2
      have "cells h' a = cells (snd (alloc ?h1 [])) a"
        by (rule Cons.IH [OF run 2]) (use Cons.prems(3) h1 in \<open>simp_all add: alloc_def\<close>)
      with Cons.prems(3) h1 show ?thesis by (simp add: alloc_def)
    qed
  next
    case False
    then have run: "slicesOf_loop sz ?h1 temp rest = (ys, hf)"
      using Cons.prems(1) by (simp add: Let_def)
    have "cells h' a = cells ?h1 a"
      by (rule Cons.IH [OF run Cons.prems(2)]) (use Cons.prems h1 in simp_all)
    with h1 show ?thesis by simp
  qed
qed

lemma slicesOf_loop_frozen:
  "slicesOf_loop sz h temp rest = (ys, hf) \<Longrightarrow> temp < fresh h \<Longrightarrow> frozen_from ys hf"
proof (induction rest arbitrary: h temp ys hf)
  case Nil
  then show ?case by (auto simp: window_def split: if_splits)
next
  case (Cons x rest)
  let ?h1 = "if int (length (cells h temp)) < sz then store h temp (cells h temp @ [x]) else h"
  have h1: "fresh ?h1 = fresh h"
    by (simp add: store_def)
  show ?case
  proof (cases "int (length (cells ?h1 temp)) = sz")
    case True
    let ?h2 = "snd (alloc ?h1 [])" and ?t = "fst (alloc ?h1 [])"
    obtain zs where run: "slicesOf_loop sz ?h2 ?t rest = (zs, hf)"
      and ys: "ys = (temp, ?h1) # zs"
      using Cons.prems(1) True by (auto simp: Let_def split: prod.splits if_splits)
    have t: "?t < fresh ?h2" "temp < fresh ?h2" "temp \<noteq> ?t" "cells ?h2 temp = cells ?h1 temp"
      using Cons.prems(2) h1 by (simp_all add: alloc_def)
    have "frozen_from zs hf"
      by (rule Cons.IH [OF run t(1)])
    moreover have "cells h' temp = cells ?h1 temp" if "h' \<in> set (map snd zs @ [hf])" for h'
      using slicesOf_loop_keeps [OF run that t(2,3)] t(4) by simp
    ultimately show ?thesis
      using ys by (simp add: window_def)
  next
    case False
    then have run: "slicesOf_loop sz ?h1 temp rest = (ys, hf)"
      using Cons.prems(1) by (simp add: Let_def)
    show ?thesis
      by (rule Cons.IH [OF run]) (use Cons.prems h1 in simp)
  qed
qed

lemma slicesOfOverlapping_loop_keeps:
  "slicesOfOverlapping_loop sz h temp rest = (ys, hf) \<Longrightarrow> h' \<in> set (map snd ys @ [hf]) \<Longrightarrow>
   a < fresh h \<Longrightarrow> a \<noteq> temp \<Longrightarrow> cells h' a = cells h a"
proof (induction rest arbitrary: h ys hf)
  case Nil
  then show ?case by auto
next
  case (Cons x rest)
  let ?h1 = "store h temp (cells h temp @ [x])"
  let ?h2 = "if int (length (cells ?h1 temp)) > sz then store ?h1 temp (tl (cells ?h1 temp)) else ?h1"
  have h2: "fresh ?h2 = fresh h" "cells ?h2 a = cells h a"
    using Cons.prems by (simp_all add: store_def)
  show ?case
  proof (cases "int (length (cells ?h2 temp)) = sz")
    case True
    let ?h3 = "snd (alloc ?h2 (cells ?h2 temp))"
    obtain zs where run: "slicesOfOverlapping_loop sz ?h3 temp rest = (zs, hf)"
      and ys: "ys = (fst (alloc ?h2 (cells ?h2 temp)), ?h3) # zs"
      using Cons.prems(1) True by (auto simp: Let_def split: prod.splits if_splits)
    have h3: "a < fresh ?h3" "cells ?h3 a = cells h a"
      using Cons.prems(3) h2 by (simp_all add: alloc_def)
    from Cons.prems(2) ys consider "h' = ?h3" | "h' \<in> set (map snd zs @ [hf])"
      by auto
    then show ?thesis
    proof cases
      case 1
      with h3 show ?thesis by simp
    next
      case 2
      have "cells h' a = cells ?h3 a"
        by (rule Cons.IH [OF run 2 h3(1) Cons.prems(4)])
      with h3 show ?thesis by simp
    qed
  next
    case False
    then have run: "slicesOfOverlapping_loop sz ?h2 temp rest = (ys, hf)"
      using Cons.prems(1) by (simp add: Let_def)
    have "cells h' a = cells ?h2 a"
      by (rule Cons.IH [OF run Cons.prems(2)]) (use Cons.prems h2 in simp_all)
    with h2 show ?thesis by simp
  qed
qed

lemma slicesOfOverlapping_loop_frozen:
  "slicesOfOverlapping_loop sz h temp rest = (ys, hf) \<Longrightarrow> temp < fresh h \<Longrightarrow> frozen_from ys hf"
proof (induction rest arbitrary: h ys hf)
  case Nil
  then show ?case by auto
next
  case (Cons x rest)
  let ?h1 = "store h temp (cells h temp @ [x])"
  let ?h2 = "if int (length (cells ?h1 temp)) > sz then store ?h1 temp (tl (cells ?h1 temp)) else ?h1"
  have h2: "fresh ?h2 = fresh h"
    by (simp add: store_def)
  show ?case
  proof (cases "int (length (cells ?h2 temp)) = sz")
    case True
    let ?h3 = "snd (alloc ?h2 (cells ?h2 temp))" and ?copy = "fst (alloc ?h2 (cells ?h2 temp))"
    obtain zs where run: "slicesOfOverlapping_loop sz ?h3 temp rest = (zs, hf)"
      and ys: "ys = (?copy, ?h3) # zs"
      using Cons.prems(1) True by (auto simp: Let_def split: prod.splits if_splits)
    have t: "temp < fresh ?h3" "?copy < fresh ?h3" "?copy \<noteq> temp"
      using Cons.prems(2) h2 by (simp_all add: alloc_def)
    have "frozen_from zs hf"
      by (rule Cons.IH [OF run t(1)])
    moreover have "cells h' ?copy = cells ?h3 ?copy" if "h' \<in> set (map snd zs @ [hf])" for h'
      by (rule slicesOfOverlapping_loop_keeps [OF run that t(2,3)])
    ultimately show ?thesis
      using ys by (simp add: window_def)
  next
    case False
    then have run: "slicesOfOverlapping_loop sz ?h2 temp rest = (ys, hf)"
      using Cons.prems(1) by (simp add: Let_def)
    show ?thesis
      by (rule Cons.IH [OF run]) (use Cons.prems h2 in simp)
  qed
qed

lemma slicesOf_frozen: "frozen (slicesOf h iter sz)"
proof -
  obtain ys hf where run: "slicesOf_loop sz (snd (alloc h [])) (fst (alloc h [])) iter = (ys, hf)"
    by (cases "slicesOf_loop sz (snd (alloc h [])) (fst (alloc h [])) iter")
  have "frozen_from ys hf"
    by (rule slicesOf_loop_frozen [OF run]) (simp add: alloc_def)
  with run show ?thesis
    by (simp add: frozen_def slicesOf_def case_prod_beta)
qed

lemma slicesOfOverlapping_frozen: "frozen (slicesOfOverlapping h iter sz)"
proof -
  let ?h1 = "snd (alloc h [])" and ?temp = "fst (alloc h [])"
  show ?thesis
  proof (cases "sz = 0")
    case False
    obtain ys hf where run: "slicesOfOverlapping_loop sz ?h1 ?temp iter = (ys, hf)"
      by (cases "slicesOfOverlapping_loop sz ?h1 ?temp iter")
    have "frozen_from ys hf"
      by (rule slicesOfOverlapping_loop_frozen [OF run]) (simp add: alloc_def)
    with run False show ?thesis
      by (simp add: frozen_def slicesOfOverlapping_def case_prod_beta)
  next
    case True
    let ?h2 = "snd (alloc ?h1 (cells ?h1 ?temp))" and ?copy = "fst (alloc ?h1 (cells ?h1 ?temp))"
    obtain ys hf where run: "slicesOfOverlapping_loop sz ?h2 ?temp iter = (ys, hf)"
      by (cases "slicesOfOverlapping_loop sz ?h2 ?temp iter")
    have t: "?temp < fresh ?h2" "?copy < fresh ?h2" "?copy \<noteq> ?temp"
      by (simp_all add: alloc_def)
    have "frozen_from ys hf"
      by (rule slicesOfOverlapping_loop_frozen [OF run t(1)])
    moreover have "cells h' ?copy = cells ?h2 ?copy" if "h' \<in> set (map snd ys @ [hf])" for h'
      by (rule slicesOfOverlapping_loop_keeps [OF run that t(2,3)])
    ultimately show ?thesis
      using run True by (simp add: frozen_def slicesOfOverlapping_def case_prod_beta window_def)
  qed
qed

lemma perm_loop_unfold:
  "perm_loop h arr c i =
     (if i < length (cells h arr) then
        (if c i < i then
           (let h' = store h arr (swapped (cells h arr) c i);
                r = perm_loop h' arr (c(i := Suc (c i))) 0
            in ((arr, h') # fst r, snd r))
         else perm_loop h arr (c(i := 0)) (Suc i))
      else ([], h))"
  by (subst perm_loop.simps) (simp add: Let_def swapped_def case_prod_beta)

lemma perm_loop_induct [case_names step]:
  assumes "\<And>h arr c i.
     (i < length (cells h arr) \<Longrightarrow> c i < i \<Longrightarrow>
        P (store h arr (swapped (cells h arr) c i)) arr (c(i := Suc (c i))) 0) \<Longrightarrow>
     (i < length (cells h arr) \<Longrightarrow> \<not> c i < i \<Longrightarrow> P h arr (c(i := 0)) (Suc i)) \<Longrightarrow>
     P h arr c i"
  shows "P h arr c i"
proof (induction h arr c i rule: perm_loop.induct)
  case (1 h arr c i)
  show ?case
  proof (rule assms)
    assume a: "i < length (cells h arr)" "c i < i"
    show "P (store h arr (swapped (cells h arr) c i)) arr (c(i := Suc (c i))) 0"
      unfolding swapped_def Let_def Suc_eq_plus1
      by (rule "1.IH"(1) [OF a refl refl refl])
  next
    assume a: "i < length (cells h arr)" "\<not> c i < i"
    show "P h arr (c(i := 0)) (Suc i)"
      unfolding Suc_eq_plus1 by (rule "1.IH"(2) [OF a])
  qed
qed

lemma perm_loop_refs: "y \<in> set (fst (perm_loop h arr c i)) \<Longrightarrow> fst y = arr"
proof (induction h arr c i rule: perm_loop_induct)
  case (step h arr c i)
  from step.prems show ?case
    by (subst (asm) perm_loop_unfold) (auto simp: Let_def split: if_splits dest: step.IH)
qed

lemma permutations_refs: "y \<in> set (fst (permutations h iter)) \<Longrightarrow> fst y = fresh h"
  using perm_loop_refs [of y]
  by (auto simp: permutations_def case_prod_beta alloc_def)

text \<open>
  C10. Every array yielded by \<open>slicesOf\<close> and by \<open>slicesOfOverlapping\<close> keeps, in the store
  of every later yield and in the final store, the contents it had when it was yielded:
  a consumer that retains a window reads the same values later. \<open>permutations\<close> differs:
  all its yields are wrappers over one array, the copy of the input it allocates first,
  and that array is swapped in place after it has been yielded (on \<open>[1,2]\<close> the first
  yield reads \<open>[1,2]\<close> when yielded and \<open>[2,1]\<close> after the run).
\<close>

theorem C10_yielded_windows_frozen:
  "frozen (slicesOf h iter sz) \<and> frozen (slicesOfOverlapping h iter sz)
   \<and> (\<forall>y \<in> set (fst (permutations h iter)). fst y = fresh h)
   \<and> \<not> frozen (permutations heap0 [Number 1, Number 2])
   \<and> windows (permutations heap0 [Number 1, Number 2])
        = [[Number 1, Number 2], [Number 2, Number 1]]
   \<and> map (\<lambda>y. cells (snd (permutations heap0 [Number 1, Number 2])) (fst y))
          (fst (permutations heap0 [Number 1, Number 2]))
        = [[Number 2, Number 1], [Number 2, Number 1]]"
proof -
  have ex: "permutations heap0 [Number 1, Number 2]
      = ([(0, \<lparr>cells = (\<lambda>_. [])(0 := [Number 1, Number 2]), fresh = 1\<rparr>),
          (0, \<lparr>cells = (\<lambda>_. [])(0 := [Number 2, Number 1]), fresh = 1\<rparr>)],
         \<lparr>cells = (\<lambda>_. [])(0 := [Number 2, Number 1]), fresh = 1\<rparr>)"
    by (simp add: permutations_def toArray_def alloc_def heap0_def perm_loop.simps store_def
          Let_def)
  show ?thesis
    using slicesOf_frozen [of h iter sz] slicesOfOverlapping_frozen [of h iter sz]
      permutations_refs [of _ h iter]
    by (auto simp: ex frozen_def windows_def window_def)
qed

theorem C10_witness:
  "frozen (slicesOf heap0 [Number 1, Number 2, Number 3] 2)
   \<and> windows (slicesOf heap0 [Number 1, Number 2, Number 3] 2)
        = [[Number 1, Number 2], [Number 3]]
   \<and> map (\<lambda>y. cells (snd (slicesOf heap0 [Number 1, Number 2, Number 3] 2)) (fst y))
          (fst (slicesOf heap0 [Number 1, Number 2, Number 3] 2))
        = [[Number 1, Number 2], [Number 3]]
   \<and> frozen (slicesOfOverlapping heap0 [Number 1, Number 2, Number 3] 2)
   \<and> windows (slicesOfOverlapping heap0 [Number 1, Number 2, Number 3] 2)
        = [[Number 1, Number 2], [Number 2, Number 3]]
   \<and> map (\<lambda>y. cells (snd (slicesOfOverlapping heap0 [Number 1, Number 2, Number 3] 2)) (fst y))
          (fst (slicesOfOverlapping heap0 [Number 1, Number 2, Number 3] 2))
        = [[Number 1, Number 2], [Number 2, Number 3]]
   \<and> map fst (fst (permutations heap0 [Number 1, Number 2])) = [0, 0]"
  using C10_yielded_windows_frozen [of heap0 "[Number 1, Number 2, Number 3]" 2]
        C10_yielded_windows_frozen [of heap0 "[Number 1, Number 2]" 2]
  by (simp add: windows_def window_def slicesOf_def slicesOfOverlapping_def alloc_def store_def
        heap0_def permutations_def toArray_def perm_loop.simps Let_def frozen_def)

subsection \<open>Transposition\<close>

lemma nth_it_nth: "nth_it xs (int k) = (if k < length xs then xs ! k else Undefined)"
  by (simp add: nth_it_def drop_it_drop hd_drop_conv_nth split: list.splits)
     (metis Cons_nth_drop_Suc drop_eq_Nil list.inject list.distinct(1) not_less)

lemma mapBy_loop_row_width:
  "\<forall>arr \<in> set rest. iterable arr \<noteq> None \<Longrightarrow>
   mapBy_loop row_width iter idx rest
     = Inr (map (\<lambda>arr. Number (int (length (the (iterable arr))))) rest)"
proof (induction rest arbitrary: idx)
  case Nil
  then show ?case by simp
next
  case (Cons arr rest)
  then obtain xs where xs: "iterable arr = Some xs" by auto
  then have "arr \<noteq> Null" "arr \<noteq> Undefined" by auto
  with xs Cons show ?case
    by (simp add: row_width_def count_it_length)
qed

lemma max_loop_numbers:
  "max_loop js_gt (Number (int r)) False (map (\<lambda>n. Number (int n)) ns)
     = Number (int (Max (insert r (set ns))))"
proof (induction ns arbitrary: r)
  case Nil
  then show ?case by simp
next
  case (Cons n ns)
  show ?case
  proof (cases "r < n")
    case True
    then have "Max (insert r (insert n (set ns))) = Max (insert n (set ns))"
      by (metis List.finite_set Max_insert Max_ge finite.insertI insertI1 insert_not_empty
          max.absorb2 less_le_trans less_imp_le)
    with True Cons.IH [of n] show ?thesis by (simp add: js_gt_def)
  next
    case False
    then have "Max (insert r (insert n (set ns))) = Max (insert r (set ns))"
      by (simp add: insert_commute [of r n] max.absorb2 Max_insert2 not_less)
         (metis List.finite_set Max_ge Max_insert finite.insertI insertI1 insert_not_empty
          max.absorb2 order_trans)
    with False Cons.IH [of r] show ?thesis by (simp add: js_gt_def)
  qed
qed

lemma column_rows:
  "\<forall>arr \<in> set iter. iterable arr \<noteq> None \<Longrightarrow>
   column x iter = Inr (map (\<lambda>arr. nth_it (the (iterable arr)) x) iter)"
  by (induction iter) auto

lemma transpose_loop_rows:
  assumes "\<forall>arr \<in> set iter. iterable arr \<noteq> None"
  shows "transpose_loop (Number (int w)) iter (int x)
     = Inr (map (\<lambda>k. Seq (map (\<lambda>arr. nth_it (the (iterable arr)) (int k)) iter)) [x..<w])"
proof (induction "w - x" arbitrary: x)
  case 0
  then show ?case by (subst transpose_loop.simps) simp
next
  case (Suc d)
  then have lt: "x < w" and d: "d = w - Suc x" by simp_all
  have "int x + 1 = int (Suc x)" by simp
  then have step: "transpose_loop (Number (int w)) iter (int x + 1)
     = Inr (map (\<lambda>k. Seq (map (\<lambda>arr. nth_it (the (iterable arr)) (int k)) iter)) [Suc x..<w])"
    using Suc.hyps(1) [OF d] by (simp only:)
  show ?case
    using lt by (subst transpose_loop.simps) (simp add: step column_rows [OF assms] upt_conv_Cons)
qed

text \<open>
  C4. When every row of \<open>iter\<close> is a sequence, \<open>transpose\<close> emits one row for each column
  index \<open>x\<close> from 0 to \<open>width - 1\<close>, where \<open>width\<close> is the greatest row length (no row at
  all when \<open>iter\<close> is empty), and row \<open>x\<close> is \<open>nth(row, x)\<close> for every row of \<open>iter\<close> in
  order; \<open>nth\<close> is the element at index \<open>x\<close> of a row that has one and \<open>Undefined\<close> for a
  shorter row.
\<close>

theorem C4_transpose_columns:
  assumes "\<forall>arr \<in> set iter. iterable arr \<noteq> None"
  shows "transpose_it iter
      = Inr (map (\<lambda>x. Seq (map (\<lambda>arr. nth_it (the (iterable arr)) (int x)) iter))
               [0..<Max (insert 0 (set (map (\<lambda>arr. length (the (iterable arr))) iter)))])
    \<and> (\<forall>arr \<in> set iter. \<forall>x. nth_it (the (iterable arr)) (int x)
          = (if x < length (the (iterable arr)) then the (iterable arr) ! x else Undefined))"
proof
  let ?len = "\<lambda>arr. length (the (iterable arr))"
  have counts: "mapBy iter row_width = Inr (map (\<lambda>n. Number (int n)) (map ?len iter))"
    using mapBy_loop_row_width [OF assms, of iter 0] by (simp add: mapBy_def comp_def)
  show "transpose_it iter
      = Inr (map (\<lambda>x. Seq (map (\<lambda>arr. nth_it (the (iterable arr)) (int x)) iter))
               [0..<Max (insert 0 (set (map ?len iter)))])"
  proof (cases iter)
    case Nil
    then show ?thesis
      by (simp add: transpose_it_def mapBy_def max_it_def transpose_loop.simps)
  next
    case (Cons arr rest)
    have "max_it js_gt (map (\<lambda>n. Number (int n)) (map ?len iter))
        = Number (int (Max (insert (?len arr) (set (map ?len rest)))))"
      using max_loop_numbers [of "?len arr" "map ?len rest"] Cons
      by (simp add: max_it_def comp_def)
    moreover have "Max (insert 0 (set (map ?len iter))) = Max (insert (?len arr) (set (map ?len rest)))"
    proof -
      have "Max (insert 0 (insert (?len arr) (set (map ?len rest))))
          = max 0 (Max (insert (?len arr) (set (map ?len rest))))"
        by (rule Max_insert) simp_all
      then show ?thesis using Cons by simp
    qed
    ultimately show ?thesis
      using transpose_loop_rows [OF assms, of _ 0] counts
      by (simp add: transpose_it_def)
  qed
  show "\<forall>arr \<in> set iter. \<forall>x. nth_it (the (iterable arr)) (int x)
          = (if x < length (the (iterable arr)) then the (iterable arr) ! x else Undefined)"
    by (simp add: nth_it_nth)
qed

theorem C4_witness:
  "transpose_it [Seq [Number 1, Number 2, Number 3], Seq [Number 4, Number 5, Number 6]]
     = Inr [Seq [Number 1, Number 4], Seq [Number 2, Number 5], Seq [Number 3, Number 6]]
   \<and> transpose_it [Seq [Number 1, Number 2], Seq [Number 4]]
     = Inr [Seq [Number 1, Number 4], Seq [Number 2, Undefined]]"
  using C4_transpose_columns [of "[Seq [Number 1, Number 2, Number 3], Seq [Number 4, Number 5, Number 6]]"]
        C4_transpose_columns [of "[Seq [Number 1, Number 2], Seq [Number 4]]"]
  by (simp add: upt_conv_Cons nth_it_def drop_it_def)

subsection \<open>The default order of sorted\<close>

lemma default_comparator_le: "default_comparator a b \<le> 0 \<longleftrightarrow> ranked_before a b"
  by (auto simp: default_comparator_def ranked_before_def Let_def)

lemma rank_cases:
  "sortType a = 0 \<Longrightarrow> \<exists>x. a = Boolean x"
  "sortType a = 1 \<Longrightarrow> a = NaN \<or> (\<exists>x. a = Number x \<or> a = BigInt x)"
  "sortType a = 2 \<Longrightarrow> \<exists>x. a = String x"
  "0 \<le> sortType a"
  by (cases a; simp)+

lemma not_gt_trans:
  assumes "sortType a = sortType b" "sortType b = sortType c" "sortType a < 3"
    and "\<not> js_gt a b" "\<not> js_gt b c" and "b \<noteq> NaN"
  shows "\<not> js_gt a c"
proof -
  from rank_cases(4) [of a] assms(3)
  consider "sortType a = 0" | "sortType a = 1" | "sortType a = 2"
    by linarith
  then show ?thesis
  proof cases
    case 1
    with assms(1,2) obtain x y z where "a = Boolean x" "b = Boolean y" "c = Boolean z"
      using rank_cases(1) by metis
    with assms(4,5) show ?thesis by (auto simp: js_gt_def)
  next
    case 2
    with assms(1,2) have "a = NaN \<or> (\<exists>x. a = Number x \<or> a = BigInt x)"
      "\<exists>y. b = Number y \<or> b = BigInt y" "c = NaN \<or> (\<exists>z. c = Number z \<or> c = BigInt z)"
      using rank_cases(2) [of a] rank_cases(2) [of b] rank_cases(2) [of c] assms(6) by auto
    with assms(4,5) show ?thesis by (auto simp: js_gt_def)
  next
    case 3
    with assms(1,2) obtain x y z where "a = String x" "b = String y" "c = String z"
      using rank_cases(3) by metis
    with assms(4,5) show ?thesis by (auto simp: js_gt_def)
  qed
qed

lemma default_comparator_trans:
  assumes "default_comparator a b \<le> 0" "default_comparator b c \<le> 0" "b \<noteq> NaN"
  shows "default_comparator a c \<le> 0"
proof (cases "sortType a = sortType b \<and> sortType b = sortType c \<and> sortType a < 3")
  case True
  with assms have "\<not> js_gt a b" "\<not> js_gt b c"
    by (auto simp: default_comparator_le ranked_before_def)
  with True assms(3) have "\<not> js_gt a c"
    using not_gt_trans by blast
  with True show ?thesis by (simp add: default_comparator_le ranked_before_def)
next
  case False
  with assms(1,2) show ?thesis
    unfolding default_comparator_le ranked_before_def by linarith
qed

lemma js_lt_asym: "js_lt a b \<Longrightarrow> \<not> js_lt b a"
  by (induction a b rule: js_lt.induct) (auto split: option.splits)

lemma default_comparator_skew:
  "(default_comparator a b < 0 \<longleftrightarrow> default_comparator b a > 0)
   \<and> (default_comparator a b = 0 \<longleftrightarrow> default_comparator b a = 0)"
  using js_lt_asym [of a b] js_lt_asym [of b a]
  by (auto simp: default_comparator_def Let_def js_gt_def)

lemma default_comparator_total:
  "\<not> default_comparator a b \<le> 0 \<Longrightarrow> default_comparator b a \<le> 0"
  using default_comparator_skew [of b a] by linarith

lemma default_comparator_consistent: "NaN \<notin> S \<Longrightarrow> consistent default_comparator S"
  unfolding consistent_def
  by (metis default_comparator_skew default_comparator_trans)

lemma array_sort_conforming: "conforming array_sort"
  by (simp add: conforming_def)

lemma set_insert_sorted: "set (insert_sorted cmp x ys) = insert x (set ys)"
  by (induction ys) auto

lemma mset_insert_sorted: "mset (insert_sorted cmp x ys) = add_mset x (mset ys)"
  by (induction ys) auto

lemma sorted_insert_sorted:
  assumes "sorted_wrt ranked_before ys" "NaN \<notin> set ys"
  shows "sorted_wrt ranked_before (insert_sorted default_comparator x ys)"
  using assms
proof (induction ys)
  case Nil
  then show ?case by simp
next
  case (Cons y ys)
  show ?case
  proof (cases "default_comparator x y \<le> 0")
    case True
    have "ranked_before x z" if "z \<in> set ys" for z
    proof -
      have "default_comparator y z \<le> 0"
        using Cons.prems(1) that by (simp add: default_comparator_le)
      with True have "default_comparator x z \<le> 0"
        using Cons.prems(2) by (intro default_comparator_trans [of x y z]) auto
      then show ?thesis by (simp add: default_comparator_le)
    qed
    with True Cons.prems show ?thesis
      by (auto simp: default_comparator_le)
  next
    case False
    then have "ranked_before y x"
      using default_comparator_total [of x y] by (simp add: default_comparator_le)
    with False Cons show ?thesis
      by (auto simp: set_insert_sorted)
  qed
qed

lemma mset_foldr_insert_sorted: "mset (foldr (insert_sorted cmp) xs []) = mset xs"
  by (induction xs) (simp_all add: mset_insert_sorted)

lemma set_foldr_insert_sorted: "set (foldr (insert_sorted cmp) xs []) = set xs"
  by (induction xs) (simp_all add: set_insert_sorted)

lemma sorted_foldr_insert_sorted:
  "NaN \<notin> set xs \<Longrightarrow>
   sorted_wrt ranked_before (foldr (insert_sorted default_comparator) xs [])"
  by (induction xs) (simp_all add: sorted_insert_sorted set_foldr_insert_sorted)

lemma mset_array_sort: "mset (array_sort cmp arr) = mset arr"
  by (simp add: array_sort_def mset_foldr_insert_sorted)

lemma sorted_array_sort:
  assumes "NaN \<notin> set arr"
  shows "sorted_wrt ranked_before (array_sort default_comparator arr)"
proof -
  have later: "ranked_before a Undefined" for a
    by (cases a) (simp_all add: ranked_before_def)
  have "sorted_wrt ranked_before (filter (\<lambda>x. x = Undefined) arr)"
    by (induction arr) (auto simp: later)
  moreover have "sorted_wrt ranked_before
      (foldr (insert_sorted default_comparator) (filter (\<lambda>x. x \<noteq> Undefined) arr) [])"
    using assms by (intro sorted_foldr_insert_sorted) simp
  ultimately show ?thesis
    by (auto simp: array_sort_def sorted_wrt_append later)
qed

lemma sorted_default_conforming:
  assumes "conforming hsort" "NaN \<notin> set iter"
  shows "sorted_default hsort iter = array_sort default_comparator iter"
proof -
  have "consistent default_comparator {x \<in> set iter. x \<noteq> Undefined}"
    using assms(2) by (intro default_comparator_consistent) simp
  with assms(1) show ?thesis
    by (simp add: conforming_def sorted_default_def sorted_it_def toArray_def)
qed

text \<open>
  C8, as stated, fails on an input that holds NaN between two numbers. NaN has the rank
  of the numbers and the comparator answers 0 for it against every number, while it
  answers 1 for 3 against 1: it is not a consistent comparison on \<open>[3, NaN, 1]\<close>, and the
  standard leaves the sorted order to the host. \<open>array_sort\<close>, a host that returns what
  the standard fixes wherever it fixes something, leaves the input as it is, with 3
  before 1.
\<close>

theorem C8_counterexample:
  "sorted_default array_sort [Number 3, NaN, Number 1] = [Number 3, NaN, Number 1]
   \<and> \<not> sorted_wrt ranked_before (sorted_default array_sort [Number 3, NaN, Number 1])
   \<and> sortType NaN = sortType (Number 3)
   \<and> default_comparator (Number 3) NaN = 0 \<and> default_comparator NaN (Number 1) = 0
   \<and> default_comparator (Number 3) (Number 1) = 1"
  by (simp add: sorted_default_def sorted_it_def array_sort_def toArray_def
        default_comparator_def js_gt_def ranked_before_def)

text \<open>
  C8, amended. For every finite input that does not hold NaN, and every host sort that
  conforms to the standard, \<open>sorted\<close> under the default comparator returns a
  rearrangement of its input in which every element comes before every element of a
  higher rank, where the ranks are boolean 0, number and big integer 1, string 2, other
  objects 3, \<open>Null\<close> 4 and \<open>Undefined\<close> 5; two elements of one rank among boolean, numeric
  and string are never in descending order of the host's comparison; and the comparator
  treats any two values of the rank of the other objects as equal. The example of the
  specification sorts as it says.
\<close>

theorem C8_sorted_default_order:
  assumes "conforming hsort" "NaN \<notin> set iter"
  shows "mset (sorted_default hsort iter) = mset iter
   \<and> sorted_wrt ranked_before (sorted_default hsort iter)
   \<and> (ranked_before a b \<longleftrightarrow>
        sortType a < sortType b
        \<or> (sortType a = sortType b \<and> (3 \<le> sortType a \<or> \<not> js_gt a b)))
   \<and> sortType (Boolean bv) = 0 \<and> sortType (Number n) = 1 \<and> sortType (BigInt n) = 1
   \<and> sortType (String s) = 2 \<and> sortType (Seq xs) = 3 \<and> sortType (Other k) = 3
   \<and> sortType Null = 4 \<and> sortType Undefined = 5
   \<and> (sortType a < sortType b \<longrightarrow> default_comparator a b < 0 \<and> default_comparator b a > 0)
   \<and> (sortType a = sortType b \<and> sortType a < 3 \<longrightarrow>
        default_comparator a b = (if js_gt a b then 1 else if js_lt a b then - 1 else 0))
   \<and> (sortType a = 3 \<and> sortType b = 3 \<longrightarrow> default_comparator a b = 0)
   \<and> sorted_default hsort [Boolean True, String ''b'', Number 3, Null, Undefined, String ''a'',
         Boolean False]
       = [Boolean False, Boolean True, Number 3, String ''a'', String ''b'', Null, Undefined]"
proof -
  have "sorted_wrt ranked_before (sorted_default hsort iter)"
    using assms by (simp add: sorted_default_conforming sorted_array_sort)
  moreover have "mset (sorted_default hsort iter) = mset iter"
    using assms by (simp add: sorted_default_conforming mset_array_sort)
  moreover have "sorted_default hsort [Boolean True, String ''b'', Number 3, Null, Undefined,
         String ''a'', Boolean False]
       = [Boolean False, Boolean True, Number 3, String ''a'', String ''b'', Null, Undefined]"
    using assms(1)
    by (subst sorted_default_conforming)
       (simp_all add: array_sort_def default_comparator_def js_gt_def)
  ultimately show ?thesis
    by (simp add: default_comparator_def Let_def ranked_before_def)
qed

theorem C8_witness:
  "conforming array_sort
   \<and> NaN \<notin> set [Other 7, Number 2, Seq [], Number 1, Undefined, BigInt 1, Null, String ''ab'',
       String ''a'']
   \<and> sorted_default array_sort [Other 7, Number 2, Seq [], Number 1, Undefined, BigInt 1, Null,
       String ''ab'', String ''a'']
     = [Number 1, BigInt 1, Number 2, String ''a'', String ''ab'', Other 7, Seq [], Null, Undefined]
   \<and> default_comparator (Other 7) (Seq []) = 0
   \<and> default_comparator (Boolean True) (Number 0) < 0"
proof -
  have c: "conforming array_sort" by (rule array_sort_conforming)
  have n: "NaN \<notin> set [Other 7, Number 2, Seq [], Number 1, Undefined, BigInt 1, Null,
      String ''ab'', String ''a'']" by simp
  show ?thesis
    using c n C8_sorted_default_order [OF c n, of "Other 7" "Seq []" True 0 "[]" "[]" 0]
      C8_sorted_default_order [OF c n, of "Boolean True" "Number 0" True 0 "[]" "[]" 0]
    by (simp add: sorted_default_def sorted_it_def array_sort_def toArray_def
          default_comparator_def js_gt_def)
qed

subsection \<open>Restartability\<close>

lemma drain_pending:
  "fst (drain t s) = pending s t
   \<and> pending (snd (drain t s)) = (pending s)(t := [])
   \<and> opened (snd (drain t s)) = opened s"
proof (induction "pending s t" arbitrary: s)
  case Nil
  then have "pull t s = (None, s)" by (simp add: pull_def)
  with Nil show ?case by (subst (1 2 3) drain.simps) auto
next
  case (Cons x rest)
  let ?s = "s\<lparr>pending := (pending s)(t := rest)\<rparr>"
  have p: "pull t s = (Some x, ?s)"
    using Cons.hyps(2) [symmetric] by (simp add: pull_def)
  have "rest = pending ?s t" by simp
  from Cons.hyps(1) [OF this] Cons.hyps(2) [symmetric] show ?case
    by (subst (1 2 3) drain.simps) (simp add: p case_prod_beta)
qed

lemma toArray_lazy_recipe:
  "fst (toArray_lazy (genIt recipe) s) = recipe ()"
  by (simp add: toArray_lazy_def iterator_def genIt_def drain_pending)

lemma pull_other:
  "t' \<noteq> t \<Longrightarrow> pending (snd (pull t s)) t' = pending s t'"
  by (simp add: pull_def split: list.splits)

text \<open>
  C3. Two separate full traversals of one lazily built wrapper return the same array,
  the values of one run of the recipe: the second \<open>toArray\<close>, run in the state the first
  one left, gives what the first one gave. No state is shared between traversals: a
  traversal requested while another one is part-way through still produces the whole
  array, and a pull from one traversal leaves the pending values of every other
  traversal as they were.
\<close>

theorem C3_lazy_wrapper_restartable:
  "fst (toArray_lazy (genIt recipe) (snd (toArray_lazy (genIt recipe) s)))
     = fst (toArray_lazy (genIt recipe) s)
   \<and> fst (toArray_lazy (genIt recipe) s) = recipe ()
   \<and> fst (toArray_lazy (genIt recipe) (snd (pull t (snd (iterator (genIt recipe) s)))))
     = recipe ()
   \<and> (t' \<noteq> t \<longrightarrow> pending (snd (pull t s)) t' = pending s t')"
  by (simp add: toArray_lazy_recipe pull_other)

theorem C3_witness:
  "(1::nat) \<noteq> 0 \<and>
   pending (snd (pull 0 (snd (iterator (genIt (\<lambda>_. [Number 1, Number 2]))
       (snd (iterator (genIt (\<lambda>_. [Number 1, Number 2])) \<lparr>pending = (\<lambda>_. []), opened = 0\<rparr>)))))) 1
     = [Number 1, Number 2]
   \<and> fst (pull 0 (snd (iterator (genIt (\<lambda>_. [Number 1, Number 2]))
       (snd (iterator (genIt (\<lambda>_. [Number 1, Number 2])) \<lparr>pending = (\<lambda>_. []), opened = 0\<rparr>)))))
     = Some (Number 1)"
  using C3_lazy_wrapper_restartable [of "\<lambda>_. [Number 1, Number 2]"
     "snd (iterator (genIt (\<lambda>_. [Number 1, Number 2]))
       (snd (iterator (genIt (\<lambda>_. [Number 1, Number 2])) \<lparr>pending = (\<lambda>_. []), opened = 0\<rparr>)))"
     0 1]
  by (simp add: iterator_def genIt_def pull_def)

subsection \<open>The permutations yielded\<close>

lemma fin_idx_odd:
  "odd k \<Longrightarrow> fin_idx k p = (if p \<ge> k then p else if p = 0 then k - 1 else if p = k - 1 then 0 else p)"
  by (simp add: fin_idx_def)

lemma fin_idx_even:
  "even k \<Longrightarrow> fin_idx k p =
     (if p \<ge> k then p
      else if p = k - 1 then 0
      else if p = k - 2 then k - 1
      else if p = 0 then k - 3
      else if p = 1 then k - 2
      else p - 1)"
  by (simp add: fin_idx_def)

lemma fin_idx_bound: "k \<le> n \<Longrightarrow> p < n \<Longrightarrow> fin_idx k p < n"
  by (cases "even k") (auto simp: fin_idx_odd fin_idx_even)

lemma fin_idx_above: "k \<le> p \<Longrightarrow> fin_idx k p = p"
  by (simp add: fin_idx_def)


lemma round_idx_0: "round_idx k 0 p = fin_idx k p"
proof (cases "even k")
  case True
  have "p \<le> k \<Longrightarrow> pos k (wrap k (coord k p)) = p"
    by (auto simp: pos_def coord_def wrap_def)
  with True show ?thesis
    by (auto simp: round_idx_def fin_idx_above)
next
  case False
  then show ?thesis
    by (auto simp: round_idx_def fin_idx_above)
qed

lemma tau_simps:
  "tau j k j = k" "tau j k k = j" "p \<noteq> j \<Longrightarrow> p \<noteq> k \<Longrightarrow> tau j k p = p"
  "tau j k (tau j k p) = p"
  by (auto simp: tau_def)

lemma coord_le: "p \<le> k \<Longrightarrow> coord k p \<le> k"
  by (auto simp: coord_def)

lemma pos_le: "t \<le> k \<Longrightarrow> pos k t \<le> k"
  by (auto simp: pos_def)

lemma pos_coord: "p \<le> k \<Longrightarrow> pos k (coord k p) = p"
  by (auto simp: pos_def coord_def)

lemma coord_pos: "t \<le> k \<Longrightarrow> coord k (pos k t) = t"
  by (auto simp: pos_def coord_def)

lemma wrap_wrap: "c \<le> k \<Longrightarrow> m \<le> k \<Longrightarrow> wrap k (wrap k (c + 1) + m) = wrap k (c + m + 1)"
  by (auto simp: wrap_def)

lemma fin_idx_inj: "fin_idx k p = fin_idx k q \<Longrightarrow> p = q"
proof (cases "even k")
  case True
  assume "fin_idx k p = fin_idx k q"
  with True show ?thesis
    unfolding fin_idx_even [OF True] by (simp split: if_splits; presburger)
next
  case False
  assume "fin_idx k p = fin_idx k q"
  with False show ?thesis
    unfolding fin_idx_odd [OF False] by (simp split: if_splits; presburger)
qed

lemma even_shapes:
  assumes "p \<le> k"
  obtains (top) "p = k" | (last) "k = Suc p" | (prev) "k = Suc (Suc p)"
    | (zero) q where "p = 0" "k = q + 3"
    | (one) q where "p = 1" "k = q + 4"
    | (mid) q r where "p = q + 2" "k = q + r + 5"
proof -
  consider "p = k" | "k = Suc p" | "k = Suc (Suc p)" | "p = 0" "k \<ge> 3" | "p = 1" "k \<ge> 4"
    | "p \<ge> 2" "k \<ge> p + 3"
    using assms by linarith
  then show thesis
  proof cases
    case 4
    then show ?thesis using zero [of "k - 3"] by simp
  next
    case 5
    then show ?thesis using one [of "k - 4"] by simp
  next
    case 6
    then show ?thesis using mid [of "p - 2" "k - p - 3"] by simp
  qed (use top last prev in auto)
qed

lemma coord_advance:
  assumes "even k" "p \<le> k"
  shows "coord k (tau 0 k (fin_idx k p)) = wrap k (coord k p + 1)"
  using assms(2)
proof (cases rule: even_shapes)
  case top
  then show ?thesis
    by (simp add: fin_idx_above tau_def coord_def wrap_def)
next
  case last
  with assms(1) show ?thesis
    by (simp add: fin_idx_even tau_def coord_def wrap_def)
next
  case prev
  with assms(1) show ?thesis
    by (simp add: fin_idx_even tau_def coord_def wrap_def)
next
  case (zero q)
  with assms(1) have "q \<noteq> 0" by (cases q) auto
  with zero assms(1) show ?thesis
    by (simp add: fin_idx_even tau_def coord_def wrap_def)
next
  case (one q)
  with assms(1) show ?thesis
    by (simp add: fin_idx_even tau_def coord_def wrap_def)
next
  case (mid q r)
  with assms(1) show ?thesis
    by (simp add: fin_idx_even tau_def coord_def wrap_def)
qed

lemma tau_le: "j \<le> k \<Longrightarrow> p \<le> k \<Longrightarrow> tau j k p \<le> k"
  by (simp add: tau_def)

lemma tau_above: "j \<le> k \<Longrightarrow> k < p \<Longrightarrow> tau j k p = p"
  by (simp add: tau_def)

lemma fin_idx_le: "p \<le> k \<Longrightarrow> fin_idx k p \<le> k"
  using fin_idx_bound [of k "Suc k" p] by simp

lemma round_idx_even:
  "even k \<Longrightarrow> p \<le> k \<Longrightarrow> round_idx k m p = fin_idx k (pos k (wrap k (coord k p + m)))"
  by (simp add: round_idx_def)

lemma round_idx_above: "k < p \<Longrightarrow> round_idx k m p = p"
  by (simp add: round_idx_def)

lemma round_step_even:
  assumes "even k" "m < k"
  shows "round_idx k (Suc m) p = round_idx k m (tau 0 k (fin_idx k p))"
proof (cases "p \<le> k")
  case True
  then have q: "tau 0 k (fin_idx k p) \<le> k"
    by (simp add: tau_le fin_idx_le)
  have "wrap k (wrap k (coord k p + 1) + m) = wrap k (coord k p + m + 1)"
    using assms(2) True by (intro wrap_wrap coord_le) simp_all
  then show ?thesis
    using True q assms by (simp add: round_idx_even coord_advance)
next
  case False
  then show ?thesis
    by (simp add: round_idx_above fin_idx_above tau_above)
qed

lemma round_last_even:
  assumes "even k"
  shows "round_idx k k p = fin_idx (Suc k) p"
proof (cases "p \<le> k")
  case True
  let ?q = "pos k (wrap k (coord k p + k))"
  have c: "coord k p \<le> k" using True by (rule coord_le)
  have t: "wrap k (coord k p + k) \<le> k" using c by (auto simp: wrap_def)
  then have q: "?q \<le> k" by (rule pos_le)
  have "coord k (tau 0 k (fin_idx k ?q)) = wrap k (coord k ?q + 1)"
    using assms q by (rule coord_advance)
  also have "\<dots> = wrap k (wrap k (coord k p + k) + 1)"
    using t by (simp add: coord_pos)
  also have "\<dots> = coord k p"
    using c by (auto simp: wrap_def)
  finally have "pos k (coord k (tau 0 k (fin_idx k ?q))) = pos k (coord k p)"
    by simp
  then have "tau 0 k (fin_idx k ?q) = p"
    using True q by (simp add: pos_coord tau_le fin_idx_le)
  then have "fin_idx k ?q = tau 0 k p"
    by (metis tau_simps(4))
  moreover have "fin_idx (Suc k) p = tau 0 k p"
    using True assms by (auto simp: fin_idx_odd tau_def)
  ultimately show ?thesis
    using True assms by (simp add: round_idx_even)
next
  case False
  then show ?thesis
    by (simp add: round_idx_above fin_idx_above)
qed

lemma round_key_even:
  assumes "even k" "m \<le> k"
  shows "round_idx k m k = fin_idx k (pos k m)"
  using assms by (simp add: round_idx_even coord_def wrap_def)

lemma round_idx_odd_mid:
  "odd k \<Longrightarrow> 0 < m \<Longrightarrow> m < k \<Longrightarrow> p \<le> k \<Longrightarrow>
   round_idx k m p =
     (if p = 0 then (if odd m then 0 else k)
      else if p = k - 1 then (if odd m then k else 0)
      else if p = k then (if m = 1 then k - 1 else m - 1)
      else if p < m then (if p = 1 then k - 1 else p - 1)
      else p)"
  by (simp add: round_idx_def)

lemma round_idx_odd_last: "odd k \<Longrightarrow> round_idx k k p = fin_idx (Suc k) p"
  by (auto simp: round_idx_def fin_idx_above)

lemma round_step_odd_first:
  assumes "odd k"
  shows "round_idx k (Suc 0) p = fin_idx k (tau 0 k (fin_idx k p))"
proof (cases "k = 1")
  case True
  then show ?thesis
    by (auto simp: round_idx_def fin_idx_def tau_def)
next
  case False
  with assms have "k \<ge> 3" by presburger
  then obtain d where k: "k = d + 3"
    using that [of "k - 3"] by simp
  show ?thesis
  proof (cases "p \<le> k")
    case False
    then show ?thesis
      by (simp add: round_idx_above fin_idx_above tau_above)
  next
    case True
    then consider "p = 0" | "p = d + 2" | "p = d + 3" | "0 < p" "p < d + 2"
      using k by linarith
    then show ?thesis
      using assms k
      by cases (simp_all add: round_idx_odd_mid fin_idx_odd tau_def)
  qed
qed

lemma round_step_odd_mid:
  assumes "odd k" "0 < m" "Suc m < k"
  shows "round_idx k (Suc m) p = round_idx k m (tau m k (fin_idx k p))"
proof (cases "p \<le> k")
  case False
  then show ?thesis
    using assms by (simp add: round_idx_above fin_idx_above tau_above)
next
  case True
  obtain d where k: "k = m + d + 2"
    using assms(3) that [of "k - m - 2"] by simp
  from True consider "p = 0" | "p = m + d + 1" | "p = m + d + 2" | "p = m"
    | "0 < p" "p < m" | "m < p" "p < m + d + 1"
    using k by linarith
  then show ?thesis
  proof cases
    case 1
    with assms k show ?thesis
      by (simp add: round_idx_odd_mid fin_idx_odd tau_def)
  next
    case 2
    with assms k show ?thesis
      by (simp add: round_idx_odd_mid fin_idx_odd tau_def)
  next
    case 3
    with assms k show ?thesis
      by (simp add: round_idx_odd_mid fin_idx_odd tau_def)
  next
    case 4
    with assms k show ?thesis
      by (simp add: round_idx_odd_mid fin_idx_odd tau_def)
  next
    case 5
    with assms k show ?thesis
      by (simp add: round_idx_odd_mid fin_idx_odd tau_def)
  next
    case 6
    with assms k show ?thesis
      by (simp add: round_idx_odd_mid fin_idx_odd tau_def)
  qed
qed

lemma round_step_odd_last:
  assumes "odd k" "0 < m" "Suc m = k"
  shows "round_idx k (Suc m) p = round_idx k m (tau m k (fin_idx k p))"
proof (cases "p \<le> k")
  case False
  then show ?thesis
    using assms by (simp add: round_idx_above fin_idx_above tau_above)
next
  case True
  from assms have "even m" by auto
  with assms(2) have "m \<ge> 2" by presburger
  then obtain d where m: "m = d + 2"
    using that [of "m - 2"] by simp
  with assms(3) have k: "k = d + 3" by simp
  have lhs: "round_idx k (Suc m) p = fin_idx (Suc k) p"
    using assms(1,3) round_idx_odd_last [of k p] by simp
  from True consider "p = 0" | "p = d + 2" | "p = d + 3" | "p = 1" | "1 < p" "p < d + 2"
    using k by linarith
  then show ?thesis
  proof cases
    case 1
    with assms k m \<open>even m\<close> show ?thesis
      unfolding lhs by (simp add: round_idx_odd_mid fin_idx_odd fin_idx_even tau_def)
  next
    case 2
    with assms k m \<open>even m\<close> show ?thesis
      unfolding lhs by (simp add: round_idx_odd_mid fin_idx_odd fin_idx_even tau_def)
  next
    case 3
    with assms k m \<open>even m\<close> show ?thesis
      unfolding lhs by (simp add: round_idx_odd_mid fin_idx_odd fin_idx_even tau_def)
  next
    case 4
    with assms k m \<open>even m\<close> show ?thesis
      unfolding lhs by (simp add: round_idx_odd_mid fin_idx_odd fin_idx_even tau_def)
  next
    case 5
    with assms k m \<open>even m\<close> show ?thesis
      unfolding lhs by (simp add: round_idx_odd_mid fin_idx_odd fin_idx_even tau_def)
  qed
qed

lemma round_step:
  assumes "m < k"
  shows "round_idx k (Suc m) p = round_idx k m (tau (if even k then 0 else m) k (fin_idx k p))"
proof (cases "even k")
  case True
  with assms show ?thesis by (simp add: round_step_even)
next
  case False
  consider "m = 0" | "0 < m" "Suc m < k" | "0 < m" "Suc m = k"
    using assms by linarith
  then show ?thesis
  proof cases
    case 1
    with False show ?thesis by (simp add: round_step_odd_first round_idx_0)
  next
    case 2
    with False show ?thesis by (simp add: round_step_odd_mid)
  next
    case 3
    with False show ?thesis using round_step_odd_last [of k m p] by simp
  qed
qed

lemma round_last: "round_idx k k p = fin_idx (Suc k) p"
  by (cases "even k") (simp_all add: round_last_even round_idx_odd_last)

lemma round_key_odd:
  assumes "odd k" "m \<le> k"
  shows "round_idx k m k = (if m = 0 then k else if m = k then 0 else if m = 1 then k - 1 else m - 1)"
proof -
  consider "m = 0" | "m = k" "0 < m" | "0 < m" "m < k"
    using assms(2) by linarith
  then show ?thesis
  proof cases
    case 1
    then show ?thesis by (simp add: round_idx_0 fin_idx_above)
  next
    case 2
    with assms show ?thesis by (simp add: round_idx_odd_last fin_idx_even)
  next
    case 3
    with assms have "k \<ge> 3" by presburger
    with 3 assms show ?thesis by (auto simp: round_idx_odd_mid)
  qed
qed

lemma round_key_le: "m \<le> k \<Longrightarrow> round_idx k m k \<le> k"
proof (cases "even k")
  case True
  assume "m \<le> k"
  with True show ?thesis
    by (simp add: round_key_even fin_idx_le pos_le)
next
  case False
  assume "m \<le> k"
  with False show ?thesis
    by (auto simp: round_key_odd)
qed

lemma round_key_inj:
  assumes "m \<le> k" "m' \<le> k" "round_idx k m k = round_idx k m' k"
  shows "m = m'"
proof (cases "even k")
  case True
  with assms have "pos k m = pos k m'"
    by (auto simp: round_key_even dest: fin_idx_inj)
  then have "coord k (pos k m) = coord k (pos k m')" by simp
  with assms(1,2) show ?thesis by (simp add: coord_pos)
next
  case False
  with assms show ?thesis
    unfolding round_key_odd [OF False assms(1)] round_key_odd [OF False assms(2)]
    by (simp split: if_splits; presburger)
qed

lemma length_swp [simp]: "length (swp a j i) = length a"
  by (simp add: swp_def)

lemma nth_swp:
  "j < length a \<Longrightarrow> i < length a \<Longrightarrow> p < length a \<Longrightarrow> swp a j i ! p = a ! tau j i p"
  by (auto simp: swp_def tau_def nth_list_update)

lemma nth_swp_other: "p \<noteq> j \<Longrightarrow> p \<noteq> i \<Longrightarrow> swp a j i ! p = a ! p"
  by (simp add: swp_def)

lemma mset_swp: "j < length a \<Longrightarrow> i < length a \<Longrightarrow> mset (swp a j i) = mset a"
  by (simp add: swp_def mset_swap)

lemma arrange_Suc:
  "arrange (Suc k) a =
     (fst (arrange k a) @ fst (phases (arrange k) k k (snd (arrange k a))),
      snd (phases (arrange k) k k (snd (arrange k a))))"
  by (simp add: case_prod_beta)

lemma phases_Suc:
  "phases H k (Suc r) a =
     (swp a (if even k then 0 else k - Suc r) k
        # fst (H (swp a (if even k then 0 else k - Suc r) k))
        @ fst (phases H k r (snd (H (swp a (if even k then 0 else k - Suc r) k)))),
      snd (phases H k r (snd (H (swp a (if even k then 0 else k - Suc r) k)))))"
  by (simp add: case_prod_beta Let_def even_iff_mod_2_eq_zero)

lemma phases_length:
  assumes "\<And>b. length (fst (H b)) + 1 = c"
  shows "length (fst (phases H k r a)) = r * c"
proof (induction r arbitrary: a)
  case 0
  show ?case by simp
next
  case (Suc r)
  have "length (fst (H (swp a (if even k then 0 else k - Suc r) k))) + 1 = c"
    by (rule assms)
  then show ?case
    unfolding phases_Suc by (simp add: Suc.IH)
qed

lemma arrange_length: "length (fst (arrange k a)) + 1 = fact k"
proof (induction k arbitrary: a)
  case 0
  show ?case by simp
next
  case (Suc k)
  have "length (fst (phases (arrange k) k k (snd (arrange k a)))) = k * fact k"
    by (rule phases_length) (rule Suc.IH)
  with Suc.IH [of a] show ?case
    unfolding arrange_Suc by simp
qed

lemma phases_fin:
  assumes H: "\<And>b. length b = n \<Longrightarrow>
      length (snd (H b)) = n \<and> (\<forall>p < n. snd (H b) ! p = b ! fin_idx k p)"
    and k: "k < n" and a: "length a = n"
  shows "m + r = k \<Longrightarrow> length am = n \<Longrightarrow> (\<forall>p < n. am ! p = a ! round_idx k m p) \<Longrightarrow>
     length (snd (phases H k r am)) = n
     \<and> (\<forall>p < n. snd (phases H k r am) ! p = a ! round_idx k k p)"
proof (induction r arbitrary: m am)
  case 0
  then show ?case by simp
next
  case (Suc r)
  let ?j = "if even k then 0 else k - Suc r"
  let ?b = "swp am ?j k"
  have j: "?j = (if even k then 0 else m)" "?j < n" "m < k"
    using Suc.prems(1) k by auto
  have b: "length ?b = n" using Suc.prems(2) by simp
  note Hb = H [OF b]
  have nth: "snd (H ?b) ! p = a ! round_idx k (Suc m) p" if p: "p < n" for p
  proof -
    have f: "fin_idx k p < n" using k p by (simp add: fin_idx_bound)
    have t: "tau ?j k (fin_idx k p) < n" using j(2) k f by (simp add: tau_def)
    have "snd (H ?b) ! p = ?b ! fin_idx k p" using Hb p by simp
    also have "\<dots> = am ! tau ?j k (fin_idx k p)"
      using j(2) k f Suc.prems(2) by (simp add: nth_swp)
    also have "\<dots> = a ! round_idx k m (tau ?j k (fin_idx k p))"
      using Suc.prems(3) t by simp
    also have "\<dots> = a ! round_idx k (Suc m) p"
      using round_step [OF j(3), of p] j(1) by simp
    finally show ?thesis .
  qed
  have "length (snd (phases H k r (snd (H ?b)))) = n
     \<and> (\<forall>p < n. snd (phases H k r (snd (H ?b))) ! p = a ! round_idx k k p)"
  proof (rule Suc.IH [where m = "Suc m"])
    show "Suc m + r = k" using Suc.prems(1) by simp
    show "length (snd (H ?b)) = n" using Hb by simp
    show "\<forall>p < n. snd (H ?b) ! p = a ! round_idx k (Suc m) p" using nth by simp
  qed
  then show ?case
    unfolding phases_Suc by simp
qed

lemma arrange_fin:
  "k \<le> length a \<Longrightarrow>
   length (snd (arrange k a)) = length a \<and> (\<forall>p < length a. snd (arrange k a) ! p = a ! fin_idx k p)"
proof (induction k arbitrary: a)
  case 0
  show ?case by (simp add: fin_idx_above)
next
  case (Suc k)
  let ?n = "length a"
  have H: "length (snd (arrange k b)) = ?n \<and> (\<forall>p < ?n. snd (arrange k b) ! p = b ! fin_idx k p)"
    if "length b = ?n" for b
    using Suc.IH [of b] Suc.prems that by simp
  have "length (snd (phases (arrange k) k k (snd (arrange k a)))) = ?n
     \<and> (\<forall>p < ?n. snd (phases (arrange k) k k (snd (arrange k a))) ! p = a ! round_idx k k p)"
  proof (rule phases_fin [where m = 0])
    show "\<And>b. length b = ?n \<Longrightarrow>
      length (snd (arrange k b)) = ?n \<and> (\<forall>p < ?n. snd (arrange k b) ! p = b ! fin_idx k p)"
      by (rule H)
    show "k < ?n" using Suc.prems by simp
    show "length (snd (arrange k a)) = ?n" using H [of a] by simp
    show "\<forall>p < ?n. snd (arrange k a) ! p = a ! round_idx k 0 p"
      using H [of a] by (simp add: round_idx_0)
  qed simp_all
  then show ?case
    unfolding arrange_Suc by (simp add: round_last)
qed

lemma phases_mset:
  assumes H: "\<And>b. length b = n \<Longrightarrow> length (snd (H b)) = n \<and> mset (snd (H b)) = mset b"
    and k: "k < n"
  shows "length am = n \<Longrightarrow> r \<le> k \<Longrightarrow> mset (snd (phases H k r am)) = mset am"
proof (induction r arbitrary: am)
  case 0
  show ?case by simp
next
  case (Suc r)
  let ?j = "if even k then 0 else k - Suc r"
  let ?b = "swp am ?j k"
  have j: "?j < n" using k by auto
  have b: "length ?b = n" "mset ?b = mset am"
    using Suc.prems(1) j k by (simp_all add: mset_swp)
  have "mset (snd (phases H k r (snd (H ?b)))) = mset (snd (H ?b))"
    using H [OF b(1)] Suc.prems(2) by (intro Suc.IH) simp_all
  with H [OF b(1)] b(2) show ?case
    unfolding phases_Suc by simp
qed

lemma arrange_mset: "k \<le> length a \<Longrightarrow> mset (snd (arrange k a)) = mset a"
proof (induction k arbitrary: a)
  case 0
  show ?case by simp
next
  case (Suc k)
  have "mset (snd (phases (arrange k) k k (snd (arrange k a)))) = mset (snd (arrange k a))"
  proof (rule phases_mset [where n = "length a"])
    show "length (snd (arrange k b)) = length a \<and> mset (snd (arrange k b)) = mset b"
      if "length b = length a" for b
      using Suc.IH [of b] arrange_fin [of k b] Suc.prems that by simp
    show "k < length a" using Suc.prems by simp
    show "length (snd (arrange k a)) = length a" using arrange_fin [of k a] Suc.prems by simp
  qed simp
  with Suc.IH [of a] Suc.prems show ?case
    unfolding arrange_Suc by simp
qed

lemma phases_keep:
  assumes H: "\<And>b. length b = n \<Longrightarrow>
      length (snd (H b)) = n \<and> (\<forall>p. k \<le> p \<and> p < n \<longrightarrow> snd (H b) ! p = b ! p)
      \<and> (\<forall>x \<in> set (fst (H b)). \<forall>p. k \<le> p \<and> p < n \<longrightarrow> x ! p = b ! p)"
    and k: "k < n"
  shows "length am = n \<Longrightarrow> x \<in> set (fst (phases H k r am)) \<Longrightarrow> k < p \<Longrightarrow> p < n \<Longrightarrow>
     x ! p = am ! p"
proof (induction r arbitrary: am)
  case 0
  then show ?case by simp
next
  case (Suc r)
  let ?j = "if even k then 0 else k - Suc r"
  let ?b = "swp am ?j k"
  have b: "length ?b = n" "?b ! p = am ! p"
    using Suc.prems by (auto simp: nth_swp_other)
  note Hb = H [OF b(1)]
  have kp: "k \<le> p \<and> p < n" using Suc.prems by simp
  from Suc.prems(2) consider "x = ?b" | "x \<in> set (fst (H ?b))"
    | "x \<in> set (fst (phases H k r (snd (H ?b))))"
    unfolding phases_Suc by auto
  then show ?case
  proof cases
    case 1
    with b show ?thesis by simp
  next
    case 2
    with Hb kp b show ?thesis by simp
  next
    case 3
    have "x ! p = snd (H ?b) ! p"
      using Hb 3 Suc.prems(3,4) by (intro Suc.IH) simp_all
    with Hb kp b show ?thesis by simp
  qed
qed

lemma arrange_keep:
  "k \<le> length a \<Longrightarrow> x \<in> set (fst (arrange k a)) \<Longrightarrow> k \<le> p \<Longrightarrow> p < length a \<Longrightarrow> x ! p = a ! p"
proof (induction k arbitrary: a x p)
  case 0
  then show ?case by simp
next
  case (Suc k)
  let ?n = "length a"
  have fin: "length (snd (arrange k b)) = ?n \<and> (\<forall>p. k \<le> p \<and> p < ?n \<longrightarrow> snd (arrange k b) ! p = b ! p)"
    if "length b = ?n" for b
    using arrange_fin [of k b] Suc.prems(1) that by (simp add: fin_idx_above)
  from Suc.prems(2) consider "x \<in> set (fst (arrange k a))"
    | "x \<in> set (fst (phases (arrange k) k k (snd (arrange k a))))"
    unfolding arrange_Suc by auto
  then show ?case
  proof cases
    case 1
    then show ?thesis using Suc.prems by (intro Suc.IH) simp_all
  next
    case 2
    have "x ! p = snd (arrange k a) ! p"
    proof (rule phases_keep [where n = ?n and H = "arrange k" and k = k and r = k])
      show "length (snd (arrange k b)) = ?n
          \<and> (\<forall>p. k \<le> p \<and> p < ?n \<longrightarrow> snd (arrange k b) ! p = b ! p)
          \<and> (\<forall>x \<in> set (fst (arrange k b)). \<forall>p. k \<le> p \<and> p < ?n \<longrightarrow> x ! p = b ! p)"
        if "length b = ?n" for b
        using fin [OF that] Suc.IH [of b] Suc.prems(1) that by simp
      show "k < ?n" using Suc.prems by simp
      show "length (snd (arrange k a)) = ?n" using fin [of a] by simp
      show "x \<in> set (fst (phases (arrange k) k k (snd (arrange k a))))" by (rule 2)
      show "k < p" "p < ?n" using Suc.prems by simp_all
    qed
    with fin [of a] Suc.prems show ?thesis by simp
  qed
qed

lemma round_next:
  assumes k: "k < length a" and m: "m < k" and am: "length am = length a"
    and nth: "\<forall>p < length a. am ! p = a ! round_idx k m p"
    and p: "p < length a"
  shows "snd (arrange k (swp am (if even k then 0 else m) k)) ! p = a ! round_idx k (Suc m) p"
proof -
  let ?j = "if even k then 0 else m"
  let ?b = "swp am ?j k"
  have j: "?j < length a" using k m by auto
  have f: "fin_idx k p < length a" using k p by (simp add: fin_idx_bound)
  have t: "tau ?j k (fin_idx k p) < length a" using j k f by (simp add: tau_def)
  have "snd (arrange k ?b) ! p = ?b ! fin_idx k p"
    using arrange_fin [of k ?b] k am p by simp
  also have "\<dots> = am ! tau ?j k (fin_idx k p)"
    using j k f am by (simp add: nth_swp)
  also have "\<dots> = a ! round_idx k m (tau ?j k (fin_idx k p))"
    using nth t by simp
  also have "\<dots> = a ! round_idx k (Suc m) p"
    using round_step [OF m, of p] by simp
  finally show ?thesis .
qed

lemma key_differs:
  assumes "distinct a" "k < length a" "m \<le> k" "m' \<le> k" "m \<noteq> m'"
  shows "a ! round_idx k m k \<noteq> a ! round_idx k m' k"
proof -
  have "round_idx k m k < length a" "round_idx k m' k < length a"
    using round_key_le [of m k] round_key_le [of m' k] assms by simp_all
  moreover have "round_idx k m k \<noteq> round_idx k m' k"
    using round_key_inj [of m k m'] assms by auto
  ultimately show ?thesis
    using assms(1) by (simp add: nth_eq_iff_index_eq)
qed

lemma phases_distinct:
  assumes IH: "\<And>b. length b = length a \<Longrightarrow> distinct b \<Longrightarrow> distinct (b # fst (arrange k b))"
    and k: "k < length a" and d: "distinct a"
  shows "m + r = k \<Longrightarrow> length am = length a \<Longrightarrow> mset am = mset a \<Longrightarrow>
     (\<forall>p < length a. am ! p = a ! round_idx k m p) \<Longrightarrow>
     distinct (fst (phases (arrange k) k r am))
     \<and> (\<forall>x \<in> set (fst (phases (arrange k) k r am)).
           \<exists>m'. m < m' \<and> m' \<le> k \<and> x ! k = a ! round_idx k m' k)"
proof (induction r arbitrary: m am)
  case 0
  show ?case by simp
next
  case (Suc r)
  let ?j = "if even k then 0 else k - Suc r"
  let ?b = "swp am ?j k"
  let ?a1 = "snd (arrange k ?b)"
  have m: "m < k" "?j = (if even k then 0 else m)" "Suc m + r = k"
    using Suc.prems(1) by auto
  have j: "?j < length a" using k by auto
  have b: "length ?b = length a" "mset ?b = mset a"
    using Suc.prems(2,3) j k by (simp_all add: mset_swp)
  then have db: "distinct ?b"
    using d by (metis mset_eq_imp_distinct_iff)
  have a1: "length ?a1 = length a" "mset ?a1 = mset a"
    using arrange_fin [of k ?b] arrange_mset [of k ?b] b k by simp_all
  have a1nth: "\<forall>p < length a. ?a1 ! p = a ! round_idx k (Suc m) p"
    using round_next [OF k m(1) Suc.prems(2,4)] m(2) by simp
  have bkey: "?b ! k = a ! round_idx k (Suc m) k"
  proof -
    have "?a1 ! k = ?b ! k"
      using arrange_fin [of k ?b] b(1) k by (simp add: fin_idx_above)
    with a1nth k show ?thesis by simp
  qed
  have block: "distinct (?b # fst (arrange k ?b))"
    using b(1) db by (rule IH)
  have blockkey: "x ! k = a ! round_idx k (Suc m) k" if "x \<in> set (?b # fst (arrange k ?b))" for x
  proof (cases "x = ?b")
    case True
    with bkey show ?thesis by simp
  next
    case False
    with that have "x \<in> set (fst (arrange k ?b))" by simp
    then have "x ! k = ?b ! k"
      using arrange_keep [of k ?b x k] b(1) k by simp
    with bkey show ?thesis by simp
  qed
  have rest: "distinct (fst (phases (arrange k) k r ?a1))
     \<and> (\<forall>x \<in> set (fst (phases (arrange k) k r ?a1)).
           \<exists>m'. Suc m < m' \<and> m' \<le> k \<and> x ! k = a ! round_idx k m' k)"
    using m(3) a1 a1nth by (rule Suc.IH)
  have disj: "x \<noteq> y"
    if x: "x \<in> set (?b # fst (arrange k ?b))" and y: "y \<in> set (fst (phases (arrange k) k r ?a1))"
    for x y
  proof -
    from y rest obtain m' where m': "Suc m < m'" "m' \<le> k" "y ! k = a ! round_idx k m' k"
      by blast
    have "a ! round_idx k (Suc m) k \<noteq> a ! round_idx k m' k"
      using d k m(1) m'(1,2) by (intro key_differs) simp_all
    with blockkey [OF x] m'(3) show ?thesis by auto
  qed
  have key: "\<exists>m'. m < m' \<and> m' \<le> k \<and> x ! k = a ! round_idx k m' k"
    if "x \<in> set (?b # fst (arrange k ?b) @ fst (phases (arrange k) k r ?a1))" for x
  proof (cases "x \<in> set (?b # fst (arrange k ?b))")
    case True
    with blockkey [of x] m(1) show ?thesis by (intro exI [of _ "Suc m"]) simp
  next
    case False
    with that have "x \<in> set (fst (phases (arrange k) k r ?a1))" by auto
    with rest obtain m' where "Suc m < m'" "m' \<le> k" "x ! k = a ! round_idx k m' k"
      by blast
    then show ?thesis by (intro exI [of _ m']) simp
  qed
  have "distinct ((?b # fst (arrange k ?b)) @ fst (phases (arrange k) k r ?a1))"
    unfolding distinct_append using block rest disj by blast
  with key show ?case
    unfolding phases_Suc by simp
qed

lemma arrange_distinct:
  "k \<le> length a \<Longrightarrow> distinct a \<Longrightarrow> distinct (a # fst (arrange k a))"
proof (induction k arbitrary: a)
  case 0
  show ?case by simp
next
  case (Suc k)
  let ?a0 = "snd (arrange k a)"
  let ?P = "fst (phases (arrange k) k k ?a0)"
  have k: "k < length a" "k \<le> length a" using Suc.prems by simp_all
  have first: "distinct (a # fst (arrange k a))"
    using k(2) Suc.prems(2) by (rule Suc.IH)
  have firstkey: "x ! k = a ! round_idx k 0 k" if "x \<in> set (a # fst (arrange k a))" for x
  proof (cases "x = a")
    case True
    then show ?thesis by (simp add: round_idx_0 fin_idx_above)
  next
    case False
    with that have "x \<in> set (fst (arrange k a))" by simp
    then have "x ! k = a ! k"
      using arrange_keep [of k a x k] k by simp
    then show ?thesis by (simp add: round_idx_0 fin_idx_above)
  qed
  have rest: "distinct ?P
     \<and> (\<forall>x \<in> set ?P. \<exists>m'. 0 < m' \<and> m' \<le> k \<and> x ! k = a ! round_idx k m' k)"
  proof (rule phases_distinct)
    show "distinct (b # fst (arrange k b))" if "length b = length a" "distinct b" for b
      using Suc.IH [of b] that k by simp
    show "k < length a" "distinct a" using k Suc.prems by simp_all
    show "0 + k = k" by simp
    show "length ?a0 = length a" "mset ?a0 = mset a"
      using arrange_fin [of k a] arrange_mset [of k a] k by simp_all
    show "\<forall>p < length a. ?a0 ! p = a ! round_idx k 0 p"
      using arrange_fin [of k a] k by (simp add: round_idx_0)
  qed
  have disj: "x \<noteq> y" if x: "x \<in> set (a # fst (arrange k a))" and y: "y \<in> set ?P" for x y
  proof -
    from y rest obtain m' where m': "0 < m'" "m' \<le> k" "y ! k = a ! round_idx k m' k"
      by blast
    have "a ! round_idx k 0 k \<noteq> a ! round_idx k m' k"
      using Suc.prems(2) k(1) m'(1,2) by (intro key_differs) simp_all
    with firstkey [OF x] m'(3) show ?thesis by auto
  qed
  have "distinct ((a # fst (arrange k a)) @ ?P)"
    unfolding distinct_append using first rest disj by blast
  then show ?case
    unfolding arrange_Suc by simp
qed

lemma store_simps [simp]:
  "cells (store h a xs) a = xs"
  "store (store h a xs) a ys = store h a ys"
  "store h a (cells h a) = h"
  by (simp_all add: store_def)

lemma perm_windows_unfold:
  "windows (perm_loop h arr c i) =
     (if i < length (cells h arr) then
        (if c i < i then
           swapped (cells h arr) c i
             # windows (perm_loop (store h arr (swapped (cells h arr) c i)) arr (c(i := Suc (c i))) 0)
         else windows (perm_loop h arr (c(i := 0)) (Suc i)))
      else [])"
  by (subst perm_loop_unfold) (simp add: windows_def window_def Let_def)

lemma swapped_swp: "swapped a c i = swp a (if even i then 0 else c i) i"
  by (simp add: swapped_def swp_def Let_def even_iff_mod_2_eq_zero)

lemma perm_loop_phases:
  assumes outer: "\<And>h c. length (cells h arr) = n \<Longrightarrow> (\<forall>j < k. c j = 0) \<Longrightarrow>
      windows (perm_loop h arr c 0)
        = fst (arrange k (cells h arr))
          @ windows (perm_loop (store h arr (snd (arrange k (cells h arr)))) arr c k)"
    and k: "k < n"
  shows "length (cells h arr) = n \<Longrightarrow> r \<le> k \<Longrightarrow> c k = k - r \<Longrightarrow> (\<forall>j < k. c j = 0) \<Longrightarrow>
     windows (perm_loop h arr c k)
       = fst (phases (arrange k) k r (cells h arr))
         @ windows (perm_loop (store h arr (snd (phases (arrange k) k r (cells h arr)))) arr
              (c(k := 0)) (Suc k))"
proof (induction r arbitrary: h c)
  case 0
  then show ?case
    using k by (subst perm_windows_unfold) simp
next
  case (Suc r)
  let ?am = "cells h arr"
  let ?b = "swp ?am (if even k then 0 else k - Suc r) k"
  let ?c = "c(k := Suc (c k))"
  let ?h1 = "store h arr ?b"
  let ?a1 = "snd (arrange k ?b)"
  let ?h2 = "store h arr ?a1"
  have ck: "c k < k" "c k = k - Suc r" using Suc.prems by simp_all
  have sw: "swapped ?am c k = ?b" by (simp add: swapped_swp ck(2))
  have "windows (perm_loop h arr c k) = ?b # windows (perm_loop ?h1 arr ?c 0)"
    using k ck(1) Suc.prems(1) by (subst perm_windows_unfold) (simp add: sw)
  also have "windows (perm_loop ?h1 arr ?c 0)
      = fst (arrange k ?b) @ windows (perm_loop ?h2 arr ?c k)"
    using outer [of ?h1 ?c] Suc.prems(1,4) by simp
  also have "windows (perm_loop ?h2 arr ?c k)
      = fst (phases (arrange k) k r ?a1)
        @ windows (perm_loop (store h arr (snd (phases (arrange k) k r ?a1))) arr (c(k := 0)) (Suc k))"
  proof -
    have len: "length (cells ?h2 arr) = n"
      using arrange_fin [of k ?b] Suc.prems(1) k by simp
    have "windows (perm_loop ?h2 arr ?c k)
      = fst (phases (arrange k) k r (cells ?h2 arr))
        @ windows (perm_loop (store ?h2 arr (snd (phases (arrange k) k r (cells ?h2 arr)))) arr
             (?c(k := 0)) (Suc k))"
      using len Suc.prems(2,3,4) by (intro Suc.IH) auto
    then show ?thesis by simp
  qed
  finally show ?case
    unfolding phases_Suc by (simp only: fst_conv snd_conv append_Cons append_assoc)
qed

lemma perm_loop_arrange:
  "k \<le> length (cells h arr) \<Longrightarrow> (\<forall>j < k. c j = 0) \<Longrightarrow>
   windows (perm_loop h arr c 0)
     = fst (arrange k (cells h arr))
       @ windows (perm_loop (store h arr (snd (arrange k (cells h arr)))) arr c k)"
proof (induction k arbitrary: h c)
  case 0
  show ?case by simp
next
  case (Suc k)
  let ?a = "cells h arr"
  let ?h0 = "store h arr (snd (arrange k ?a))"
  have first: "windows (perm_loop h arr c 0)
      = fst (arrange k ?a) @ windows (perm_loop ?h0 arr c k)"
    using Suc.prems by (intro Suc.IH) simp_all
  have "windows (perm_loop ?h0 arr c k)
      = fst (phases (arrange k) k k (cells ?h0 arr))
        @ windows (perm_loop (store ?h0 arr (snd (phases (arrange k) k k (cells ?h0 arr)))) arr
             (c(k := 0)) (Suc k))"
  proof (rule perm_loop_phases [where n = "length ?a"])
    show "windows (perm_loop h' arr c' 0)
        = fst (arrange k (cells h' arr))
          @ windows (perm_loop (store h' arr (snd (arrange k (cells h' arr)))) arr c' k)"
      if "length (cells h' arr) = length ?a" "\<forall>j < k. c' j = 0" for h' c'
      using that Suc.prems(1) by (intro Suc.IH) simp_all
    show "k < length ?a" using Suc.prems by simp
    show "length (cells ?h0 arr) = length ?a"
      using arrange_fin [of k ?a] Suc.prems by simp
    show "c k = k - k" "\<forall>j < k. c j = 0" using Suc.prems by simp_all
  qed simp
  moreover have "c(k := 0) = c" using Suc.prems by (simp add: fun_upd_idem)
  ultimately show ?case
    using first unfolding arrange_Suc by simp
qed

lemma permutations_windows:
  "windows (permutations h iter) = iter # fst (arrange (length iter) iter)"
proof -
  let ?h1 = "snd (alloc h iter)" and ?arr = "fst (alloc h iter)"
  have a: "cells ?h1 ?arr = iter" by (simp add: alloc_def)
  let ?hf = "store ?h1 ?arr (snd (arrange (length iter) iter))"
  have "windows (perm_loop ?h1 ?arr (\<lambda>_. 0) 0)
     = fst (arrange (length iter) iter) @ windows (perm_loop ?hf ?arr (\<lambda>_. 0) (length iter))"
    using perm_loop_arrange [of "length iter" ?h1 ?arr "\<lambda>_. 0"] a by simp
  moreover have "windows (perm_loop ?hf ?arr (\<lambda>_. 0) (length iter)) = []"
    using arrange_fin [of "length iter" iter] by (subst perm_windows_unfold) simp
  ultimately show ?thesis
    by (simp add: permutations_def toArray_def case_prod_beta windows_def window_def a)
qed

lemma phases_outs_mset:
  assumes H: "\<And>b. length b = n \<Longrightarrow>
      length (snd (H b)) = n \<and> mset (snd (H b)) = mset b
      \<and> (\<forall>x \<in> set (fst (H b)). mset x = mset b)"
    and k: "k < n"
  shows "length am = n \<Longrightarrow> x \<in> set (fst (phases H k r am)) \<Longrightarrow> mset x = mset am"
proof (induction r arbitrary: am)
  case 0
  then show ?case by simp
next
  case (Suc r)
  let ?j = "if even k then 0 else k - Suc r"
  let ?b = "swp am ?j k"
  have j: "?j < n" using k by auto
  have b: "length ?b = n" "mset ?b = mset am"
    using Suc.prems(1) j k by (simp_all add: mset_swp)
  note Hb = H [OF b(1)]
  from Suc.prems(2) consider "x = ?b" | "x \<in> set (fst (H ?b))"
    | "x \<in> set (fst (phases H k r (snd (H ?b))))"
    unfolding phases_Suc by auto
  then show ?case
  proof cases
    case 1
    with b show ?thesis by simp
  next
    case 2
    with Hb b show ?thesis by simp
  next
    case 3
    have "mset x = mset (snd (H ?b))"
      using Hb 3 by (intro Suc.IH) simp_all
    with Hb b show ?thesis by simp
  qed
qed

lemma arrange_outs_mset:
  "k \<le> length a \<Longrightarrow> x \<in> set (fst (arrange k a)) \<Longrightarrow> mset x = mset a"
proof (induction k arbitrary: a x)
  case 0
  then show ?case by simp
next
  case (Suc k)
  let ?n = "length a"
  have fin: "length (snd (arrange k b)) = ?n \<and> mset (snd (arrange k b)) = mset b"
    if "length b = ?n" for b
    using arrange_fin [of k b] arrange_mset [of k b] Suc.prems(1) that by simp
  from Suc.prems(2) consider "x \<in> set (fst (arrange k a))"
    | "x \<in> set (fst (phases (arrange k) k k (snd (arrange k a))))"
    unfolding arrange_Suc by auto
  then show ?case
  proof cases
    case 1
    then show ?thesis using Suc.prems by (intro Suc.IH) simp_all
  next
    case 2
    have "mset x = mset (snd (arrange k a))"
    proof (rule phases_outs_mset [where n = ?n and H = "arrange k" and k = k and r = k])
      show "length (snd (arrange k b)) = ?n \<and> mset (snd (arrange k b)) = mset b
          \<and> (\<forall>x \<in> set (fst (arrange k b)). mset x = mset b)"
        if "length b = ?n" for b
        using fin [OF that] Suc.IH [of b] Suc.prems(1) that by simp
      show "k < ?n" using Suc.prems by simp
      show "length (snd (arrange k a)) = ?n" using fin [of a] by simp
      show "x \<in> set (fst (phases (arrange k) k k (snd (arrange k a))))" by (rule 2)
    qed
    with fin [of a] show ?thesis by simp
  qed
qed

text \<open>
  C5, as stated, fails on an input with a repeated element: the loop permutes positions,
  so the two arrangements of \<open>[1, 1]\<close> are yielded as two equal snapshots.
\<close>

theorem C5_counterexample:
  "windows (permutations heap0 [Number 1, Number 1])
     = [[Number 1, Number 1], [Number 1, Number 1]]
   \<and> \<not> distinct (windows (permutations heap0 [Number 1, Number 1]))"
  by (simp add: windows_def window_def permutations_def toArray_def alloc_def heap0_def
        perm_loop.simps store_def Let_def)

text \<open>
  C5, amended. For every input of length \<open>k\<close>, \<open>permutations\<close> yields exactly \<open>k!\<close> results,
  each a rearrangement of the input as it reads at the moment of its yield, and the first
  is the input in its own order. When the elements of the input are pairwise different,
  all the yielded snapshots are different.
\<close>

theorem C5_permutations_count_distinct:
  "length (windows (permutations h iter)) = fact (length iter)
   \<and> (\<exists>rest. windows (permutations h iter) = iter # rest)
   \<and> (\<forall>x \<in> set (windows (permutations h iter)). mset x = mset iter)
   \<and> (distinct iter \<longrightarrow> distinct (windows (permutations h iter)))"
proof (intro conjI)
  note w = permutations_windows [of h iter]
  show "length (windows (permutations h iter)) = fact (length iter)"
    using arrange_length [of "length iter" iter] by (simp add: w)
  show "\<exists>rest. windows (permutations h iter) = iter # rest"
    by (simp add: w)
  show "\<forall>x \<in> set (windows (permutations h iter)). mset x = mset iter"
    using arrange_outs_mset [of "length iter" iter] by (auto simp: w)
  show "distinct iter \<longrightarrow> distinct (windows (permutations h iter))"
    using arrange_distinct [of "length iter" iter] by (simp add: w)
qed

theorem C5_witness:
  "distinct [Number 1, Number 2, Number 3]
   \<and> windows (permutations heap0 [Number 1, Number 2, Number 3])
     = [[Number 1, Number 2, Number 3], [Number 2, Number 1, Number 3],
        [Number 3, Number 1, Number 2], [Number 1, Number 3, Number 2],
        [Number 2, Number 3, Number 1], [Number 3, Number 2, Number 1]]
   \<and> distinct (windows (permutations heap0 [Number 1, Number 2, Number 3]))
   \<and> length (windows (permutations heap0 [Number 1, Number 2, Number 3])) = 6"
proof -
  have "windows (permutations heap0 [Number 1, Number 2, Number 3])
     = [[Number 1, Number 2, Number 3], [Number 2, Number 1, Number 3],
        [Number 3, Number 1, Number 2], [Number 1, Number 3, Number 2],
        [Number 2, Number 3, Number 1], [Number 3, Number 2, Number 1]]"
    by (simp add: windows_def window_def permutations_def toArray_def alloc_def heap0_def
          perm_loop.simps store_def Let_def)
  then show ?thesis
    using C5_permutations_count_distinct [of heap0 "[Number 1, Number 2, Number 3]"]
    by simp
qed

end
